theory Spec2Isabelle
  imports Complex_Main "HOL-Library.Word" "HOL-Library.Sublist"
begin

text \<open>
  The text transformations of ReDraft's \<^verbatim>\<open>index.js\<close>: the word-level diff
  (\<^verbatim>\<open>tokenize\<close>, \<^verbatim>\<open>lcsTable\<close>, \<^verbatim>\<open>computeWordDiff\<close>), the content protector
  (\<^verbatim>\<open>stripProtectedBlocks\<close>, \<^verbatim>\<open>restoreProtectedBlocks\<close>), the response parser
  (\<^verbatim>\<open>parseChangelog\<close>) and the point of view detector (\<^verbatim>\<open>detectPov\<close>), each translated
  from the source together with the regular expressions it uses, followed by the properties
  proved of them.
\<close>

section \<open>JavaScript strings\<close>

text \<open>
  A JavaScript string is a sequence of UTF-16 code units. The regular expressions of
  \<^verbatim>\<open>index.js\<close> carry no \<^verbatim>\<open>u\<close> flag, so they work on code units as well.
\<close>

type_synonym cu = "16 word"
type_synonym jstring = "cu list"

definition js :: "string \<Rightarrow> jstring" where
  "js s = map of_char s"

text \<open>
  White space as \<^verbatim>\<open>\s\<close> and \<^verbatim>\<open>String.prototype.trim\<close> see it: TAB, LF, VT, FF, CR,
  SP, NBSP, the space separators of Unicode, LS, PS and the byte order mark.
\<close>

definition is_space :: "cu \<Rightarrow> bool" where
  "is_space c \<longleftrightarrow>
     (0x09 \<le> c \<and> c \<le> 0x0D) \<or> c = 0x20 \<or> c = 0xA0 \<or> c = 0x1680 \<or>
     (0x2000 \<le> c \<and> c \<le> 0x200A) \<or> c = 0x2028 \<or> c = 0x2029 \<or> c = 0x202F \<or>
     c = 0x205F \<or> c = 0x3000 \<or> c = 0xFEFF"

definition is_digit :: "cu \<Rightarrow> bool" where
  "is_digit c \<longleftrightarrow> 0x30 \<le> c \<and> c \<le> 0x39"

definition is_upper :: "cu \<Rightarrow> bool" where
  "is_upper c \<longleftrightarrow> 0x41 \<le> c \<and> c \<le> 0x5A"

definition is_lower :: "cu \<Rightarrow> bool" where
  "is_lower c \<longleftrightarrow> 0x61 \<le> c \<and> c \<le> 0x7A"

definition is_word :: "cu \<Rightarrow> bool" where
  "is_word c \<longleftrightarrow> is_upper c \<or> is_lower c \<or> is_digit c \<or> c = 0x5F"

text \<open>
  Case conversion on the ASCII letters. Without the \<^verbatim>\<open>u\<close> flag a case-insensitive
  pattern compares canonical forms, and the canonical form of a code unit above 127 is
  never an ASCII one; every literal and class of the patterns below is ASCII, so this is
  what \<^verbatim>\<open>/i\<close> does on them.
\<close>

definition upper_ascii :: "cu \<Rightarrow> cu" where
  "upper_ascii c = (if is_lower c then c - 0x20 else c)"

definition lower_ascii :: "cu \<Rightarrow> cu" where
  "lower_ascii c = (if is_upper c then c + 0x20 else c)"

text \<open>
  \<^verbatim>\<open>tag.toUpperCase()\<close>: the program applies it to the first capture of the bracket pattern
  only, a string of ASCII letters and underscores.
\<close>

definition toUpperCase :: "jstring \<Rightarrow> jstring" where
  "toUpperCase s = map upper_ascii s"

definition trim :: "jstring \<Rightarrow> jstring" where
  "trim s = rev (dropWhile is_space (rev (dropWhile is_space s)))"

definition startsWith :: "jstring \<Rightarrow> jstring \<Rightarrow> bool" where
  "startsWith s p = (take (length p) s = p)"

fun str_includes :: "jstring \<Rightarrow> jstring \<Rightarrow> bool" where
  "str_includes [] p = (p = [])"
| "str_includes (x # xs) p = (startsWith (x # xs) p \<or> str_includes xs p)"

definition substring :: "jstring \<Rightarrow> nat \<Rightarrow> nat \<Rightarrow> jstring" where
  "substring s i j = take (j - i) (drop i s)"

definition substring_from :: "jstring \<Rightarrow> nat \<Rightarrow> jstring" where
  "substring_from s i = drop i s"

section \<open>Regular expressions\<close>

text \<open>
  The patterns of the source use literals, character classes, sequence, alternation,
  capture groups, one back reference, \<^verbatim>\<open>\b\<close>, \<^verbatim>\<open>$\<close>, and the quantifiers
  \<^verbatim>\<open>*\<close>, \<^verbatim>\<open>+\<close>, \<^verbatim>\<open>?\<close>, \<^verbatim>\<open>*?\<close>, each applied to a single character class.
\<close>

datatype item = Ch cu | Rng cu cu | Spc | NonSpc | Wrd | Dgt

datatype cls = Cls bool "item list"

datatype rx =
    Lit jstring
  | Atom cls
  | Seq rx rx
  | Alt rx rx
  | Star cls
  | LazyStar cls
  | Plus cls
  | Opt cls
  | Grp nat rx
  | Back nat
  | WordB
  | Eos

text \<open>The classes \<^verbatim>\<open>\s\<close>, \<^verbatim>\<open>\S\<close>, \<^verbatim>\<open>[\s\S]\<close>, \<^verbatim>\<open>\w\<close> and \<^verbatim>\<open>\d\<close>.\<close>

definition space_cls :: cls where
  "space_cls = Cls False [Spc]"

definition nonspace_cls :: cls where
  "nonspace_cls = Cls False [NonSpc]"

definition any_cls :: cls where
  "any_cls = Cls False [Spc, NonSpc]"

definition word_cls :: cls where
  "word_cls = Cls False [Wrd]"

definition digit_cls :: cls where
  "digit_cls = Cls False [Dgt]"

text \<open>
  The captures are an association list, the latest binding first; a position is the code
  unit before it, if any, and the rest of the input.
\<close>

type_synonym caps = "(nat \<times> jstring) list"
type_synonym pos = "cu option \<times> jstring"
type_synonym mstate = "pos \<times> caps"

fun item_mem :: "item \<Rightarrow> cu \<Rightarrow> bool" where
  "item_mem (Ch a) c = (c = a)"
| "item_mem (Rng lo hi) c = (lo \<le> c \<and> c \<le> hi)"
| "item_mem Spc c = is_space c"
| "item_mem NonSpc c = (\<not> is_space c)"
| "item_mem Wrd c = is_word c"
| "item_mem Dgt c = is_digit c"

fun cls_mem :: "bool \<Rightarrow> cls \<Rightarrow> cu \<Rightarrow> bool" where
  "cls_mem ic (Cls neg items) c =
     (list_ex (\<lambda>it. item_mem it c \<or>
         (ic \<and> (item_mem it (upper_ascii c) \<or> item_mem it (lower_ascii c)))) items \<noteq> neg)"

definition ceq :: "bool \<Rightarrow> cu \<Rightarrow> cu \<Rightarrow> bool" where
  "ceq ic a c = (if ic then upper_ascii a = upper_ascii c else a = c)"

fun lit_at :: "bool \<Rightarrow> jstring \<Rightarrow> jstring \<Rightarrow> bool" where
  "lit_at ic [] rest = True"
| "lit_at ic (a # as) [] = False"
| "lit_at ic (a # as) (c # cs) = (ceq ic a c \<and> lit_at ic as cs)"

fun advance :: "pos \<Rightarrow> nat \<Rightarrow> pos" where
  "advance p 0 = p"
| "advance (prev, []) (Suc n) = (prev, [])"
| "advance (prev, x # xs) (Suc n) = advance (Some x, xs) n"

definition at_word_boundary :: "pos \<Rightarrow> bool" where
  "at_word_boundary p =
     ((case fst p of None \<Rightarrow> False | Some c \<Rightarrow> is_word c) \<noteq>
      (case snd p of [] \<Rightarrow> False | x # _ \<Rightarrow> is_word x))"

fun star_g :: "(cu \<Rightarrow> bool) \<Rightarrow> cu option \<Rightarrow> jstring \<Rightarrow> (pos \<Rightarrow> 'r option) \<Rightarrow> 'r option" where
  "star_g P prev [] k = k (prev, [])"
| "star_g P prev (x # xs) k =
     (if P x then (case star_g P (Some x) xs k of Some r \<Rightarrow> Some r | None \<Rightarrow> k (prev, x # xs))
      else k (prev, x # xs))"

fun star_l :: "(cu \<Rightarrow> bool) \<Rightarrow> cu option \<Rightarrow> jstring \<Rightarrow> (pos \<Rightarrow> 'r option) \<Rightarrow> 'r option" where
  "star_l P prev [] k = k (prev, [])"
| "star_l P prev (x # xs) k =
     (case k (prev, x # xs) of Some r \<Rightarrow> Some r
      | None \<Rightarrow> if P x then star_l P (Some x) xs k else None)"

text \<open>
  The backtracking matcher, in continuation-passing style as in the ECMAScript
  definition: \<open>m r ic p c k\<close> matches \<open>r\<close> at position \<open>p\<close> (the code unit before the
  position and the rest of the input) with captures \<open>c\<close> and hands every way of matching,
  in priority order, to the continuation \<open>k\<close> until one succeeds.
\<close>

primrec m :: "rx \<Rightarrow> bool \<Rightarrow> pos \<Rightarrow> caps \<Rightarrow> (pos \<Rightarrow> caps \<Rightarrow> mstate option) \<Rightarrow> mstate option" where
  "m (Lit s) ic p c k = (if lit_at ic s (snd p) then k (advance p (length s)) c else None)"
| "m (Atom cl) ic p c k =
     (case snd p of [] \<Rightarrow> None
      | x # xs \<Rightarrow> if cls_mem ic cl x then k (Some x, xs) c else None)"
| "m (Seq a b) ic p c k = m a ic p c (\<lambda>p' c'. m b ic p' c' k)"
| "m (Alt a b) ic p c k = (case m a ic p c k of Some r \<Rightarrow> Some r | None \<Rightarrow> m b ic p c k)"
| "m (Star cl) ic p c k = star_g (cls_mem ic cl) (fst p) (snd p) (\<lambda>p'. k p' c)"
| "m (LazyStar cl) ic p c k = star_l (cls_mem ic cl) (fst p) (snd p) (\<lambda>p'. k p' c)"
| "m (Plus cl) ic p c k =
     (case snd p of [] \<Rightarrow> None
      | x # xs \<Rightarrow> if cls_mem ic cl x then star_g (cls_mem ic cl) (Some x) xs (\<lambda>p'. k p' c)
                  else None)"
| "m (Opt cl) ic p c k =
     (case (case snd p of [] \<Rightarrow> None
            | x # xs \<Rightarrow> if cls_mem ic cl x then k (Some x, xs) c else None) of
        Some r \<Rightarrow> Some r
      | None \<Rightarrow> k p c)"
| "m (Grp n a) ic p c k =
     m a ic p c (\<lambda>p' c'. k p' ((n, take (length (snd p) - length (snd p')) (snd p)) # c'))"
| "m (Back n) ic p c k =
     (case map_of c n of None \<Rightarrow> k p c
      | Some s \<Rightarrow> if lit_at ic s (snd p) then k (advance p (length s)) c else None)"
| "m WordB ic p c k = (if at_word_boundary p then k p c else None)"
| "m Eos ic p c k = (if snd p = [] then k p c else None)"

text \<open>One attempt at one position: the matched text, the position after it, the captures.\<close>

definition match_at :: "rx \<Rightarrow> bool \<Rightarrow> cu option \<Rightarrow> jstring \<Rightarrow> (jstring \<times> pos \<times> caps) option" where
  "match_at r ic prev rest =
     (case m r ic (prev, rest) [] (\<lambda>p c. Some (p, c)) of
        None \<Rightarrow> None
      | Some (p', c) \<Rightarrow> Some (take (length rest - length (snd p')) rest, p', c))"

record rmatch =
  index :: nat
  matched :: jstring
  groups :: caps

text \<open>\<^verbatim>\<open>str.match(re)\<close> and \<^verbatim>\<open>str.search(re)\<close> without the \<^verbatim>\<open>g\<close> flag: the leftmost match.\<close>

fun exec_from :: "rx \<Rightarrow> bool \<Rightarrow> nat \<Rightarrow> cu option \<Rightarrow> jstring \<Rightarrow> rmatch option" where
  "exec_from r ic i prev [] =
     (case match_at r ic prev [] of
        None \<Rightarrow> None
      | Some (mt, p', c) \<Rightarrow> Some \<lparr>index = i, matched = mt, groups = c\<rparr>)"
| "exec_from r ic i prev (x # xs) =
     (case match_at r ic prev (x # xs) of
        None \<Rightarrow> exec_from r ic (Suc i) (Some x) xs
      | Some (mt, p', c) \<Rightarrow> Some \<lparr>index = i, matched = mt, groups = c\<rparr>)"

definition str_match :: "jstring \<Rightarrow> rx \<Rightarrow> bool \<Rightarrow> rmatch option" where
  "str_match s r ic = exec_from r ic 0 None s"

text \<open>A capture read by the program; every group of the patterns below takes part in a match.\<close>

definition capture :: "caps \<Rightarrow> nat \<Rightarrow> jstring" where
  "capture c n = (case map_of c n of None \<Rightarrow> [] | Some s \<Rightarrow> s)"

definition group :: "rmatch \<Rightarrow> nat \<Rightarrow> jstring" where
  "group mt n = capture (groups mt) n"

text \<open>
  With the \<^verbatim>\<open>g\<close> flag, \<^verbatim>\<open>match\<close> and \<^verbatim>\<open>replace\<close> first collect the successive
  matches from left to right, each search starting where the last match ended (one code
  unit further after an empty match). \<open>scan\<close> returns the input cut into the code units
  kept and the matches found.
\<close>

datatype piece = Keep cu | Hit jstring caps

function scan :: "rx \<Rightarrow> bool \<Rightarrow> cu option \<Rightarrow> jstring \<Rightarrow> piece list" where
  "scan r ic prev rest =
     (case match_at r ic prev rest of
        None \<Rightarrow> (case rest of [] \<Rightarrow> [] | x # xs \<Rightarrow> Keep x # scan r ic (Some x) xs)
      | Some (mt, p', c) \<Rightarrow>
          Hit mt c #
          (if length (snd p') < length rest then scan r ic (fst p') (snd p')
           else (case rest of [] \<Rightarrow> [] | x # xs \<Rightarrow> Keep x # scan r ic (Some x) xs)))"
  by pat_completeness auto
termination
  by (relation "measure (\<lambda>(r, ic, prev, rest). length rest)") auto

declare scan.simps [simp del]

fun match_g_pieces :: "piece list \<Rightarrow> jstring list" where
  "match_g_pieces [] = []"
| "match_g_pieces (Keep x # ps) = match_g_pieces ps"
| "match_g_pieces (Hit mt c # ps) = mt # match_g_pieces ps"

text \<open>\<^verbatim>\<open>str.match(re) || []\<close> with the \<^verbatim>\<open>g\<close> flag: the matched texts.\<close>

definition match_g :: "jstring \<Rightarrow> rx \<Rightarrow> bool \<Rightarrow> jstring list" where
  "match_g s r ic = match_g_pieces (scan r ic None s)"

text \<open>
  \<^verbatim>\<open>str.replace(re, callback)\<close> with the \<^verbatim>\<open>g\<close> flag. The callback of the source reads
  and extends an array; here it takes and returns that state.
\<close>

fun replace_pieces :: "(jstring \<Rightarrow> caps \<Rightarrow> 's \<Rightarrow> jstring \<times> 's) \<Rightarrow> piece list \<Rightarrow> 's \<Rightarrow> jstring \<times> 's" where
  "replace_pieces f [] st = ([], st)"
| "replace_pieces f (Keep x # ps) st =
     (case replace_pieces f ps st of (out, st') \<Rightarrow> (x # out, st'))"
| "replace_pieces f (Hit mt c # ps) st =
     (case f mt c st of (rep, st1) \<Rightarrow>
        (case replace_pieces f ps st1 of (out, st2) \<Rightarrow> (rep @ out, st2)))"

definition replace_g :: "jstring \<Rightarrow> rx \<Rightarrow> bool \<Rightarrow> (jstring \<Rightarrow> caps \<Rightarrow> 's \<Rightarrow> jstring \<times> 's) \<Rightarrow> 's \<Rightarrow> jstring \<times> 's" where
  "replace_g s r ic f st = replace_pieces f (scan r ic None s) st"

section \<open>Diff engine\<close>

text \<open>\<^verbatim>\<open>/\S+|\s+/g\<close>\<close>

definition token_re :: rx where
  "token_re = Alt (Plus nonspace_cls) (Plus space_cls)"

definition tokenize :: "jstring \<Rightarrow> jstring list" where
  "tokenize text = match_g text token_re False"

text \<open>
  \<^verbatim>\<open>lcsTable\<close>: \<open>m + 1\<close> rows, each a \<^verbatim>\<open>Uint16Array\<close> of \<open>n + 1\<close> zeros, filled row by
  row. A store into a \<^verbatim>\<open>Uint16Array\<close> keeps the value modulo \<open>2 ^ 16\<close>.
\<close>

definition lcs_cell :: "jstring list \<Rightarrow> jstring list \<Rightarrow> 16 word list list \<Rightarrow> nat \<Rightarrow> nat \<Rightarrow> 16 word list list" where
  "lcs_cell a b dp i j =
     dp[i := (dp ! i)[j :=
        (if a ! (i - 1) = b ! (j - 1) then dp ! (i - 1) ! (j - 1) + 1
         else max (dp ! (i - 1) ! j) (dp ! i ! (j - 1)))]]"

definition lcsTable :: "jstring list \<Rightarrow> jstring list \<Rightarrow> 16 word list list" where
  "lcsTable a b =
     (let m = length a; n = length b;
          dp = replicate (m + 1) (replicate (n + 1) 0)
      in foldl (\<lambda>dp i. foldl (\<lambda>dp j. lcs_cell a b dp i j) dp [1..<n + 1]) dp [1..<m + 1])"

datatype seg_kind = Equal | Delete | Insert

record segment =
  seg_type :: seg_kind
  seg_text :: jstring

text \<open>The backtrace loop of \<^verbatim>\<open>computeWordDiff\<close>; \<open>diff\<close> is the array pushed to.\<close>

function backtrace :: "jstring list \<Rightarrow> jstring list \<Rightarrow> 16 word list list \<Rightarrow> nat \<Rightarrow> nat \<Rightarrow> segment list \<Rightarrow> segment list" where
  "backtrace a b dp i j diff =
     (if i > 0 \<or> j > 0 then
        (if i > 0 \<and> j > 0 \<and> a ! (i - 1) = b ! (j - 1) then
           backtrace a b dp (i - 1) (j - 1) (diff @ [\<lparr>seg_type = Equal, seg_text = a ! (i - 1)\<rparr>])
         else if j > 0 \<and> (i = 0 \<or> dp ! i ! (j - 1) \<ge> dp ! (i - 1) ! j) then
           backtrace a b dp i (j - 1) (diff @ [\<lparr>seg_type = Insert, seg_text = b ! (j - 1)\<rparr>])
         else
           backtrace a b dp (i - 1) j (diff @ [\<lparr>seg_type = Delete, seg_text = a ! (i - 1)\<rparr>]))
      else diff)"
  by pat_completeness auto
termination
  by (relation "measure (\<lambda>(a, b, dp, i, j, diff). i + j)") auto

declare backtrace.simps [simp del]

text \<open>One round of the merge loop: extend the last merged segment or push a copy.\<close>

definition merge_step :: "segment list \<Rightarrow> segment \<Rightarrow> segment list" where
  "merge_step merged seg =
     (if length merged > 0 \<and> seg_type (last merged) = seg_type seg then
        butlast merged @ [(last merged)\<lparr>seg_text := seg_text (last merged) @ seg_text seg\<rparr>]
      else merged @ [seg])"

definition computeWordDiff :: "jstring \<Rightarrow> jstring \<Rightarrow> segment list" where
  "computeWordDiff original refined =
     (let a = tokenize original;
          b = tokenize refined;
          dp = lcsTable a b;
          diff = rev (backtrace a b dp (length a) (length b) [])
      in foldl merge_step [] diff)"

text \<open>The text of the segments of the given kinds, concatenated in order.\<close>

definition seg_concat :: "seg_kind set \<Rightarrow> segment list \<Rightarrow> jstring" where
  "seg_concat K segs = concat (map seg_text (filter (\<lambda>s. seg_type s \<in> K) segs))"

section \<open>Content protector\<close>

fun seqs :: "rx list \<Rightarrow> rx" where
  "seqs [] = Lit []"
| "seqs [r] = r"
| "seqs (r # rs) = Seq r (seqs rs)"

fun alts :: "rx list \<Rightarrow> rx" where
  "alts [] = Lit []"
| "alts [r] = r"
| "alts (r # rs) = Alt r (alts rs)"

definition ch :: "char \<Rightarrow> cu" where
  "ch c = of_char c"

text \<open>A number in a template literal: its decimal digits.\<close>

fun decimal :: "nat \<Rightarrow> jstring" where
  "decimal n = (if n < 10 then [0x30 + of_nat n]
                else decimal (n div 10) @ [0x30 + of_nat (n mod 10)])"

declare decimal.simps [simp del]

text \<open>
  \<^verbatim>\<open>parseInt(idx, 10)\<close> on a string of decimal digits, which is what \<^verbatim>\<open>(\d+)\<close> captures.
  The program uses the number as an array index only; a double that has lost the low digits
  of a long string is out of range like the exact number.
\<close>

definition parseInt :: "jstring \<Rightarrow> nat" where
  "parseInt s = foldl (\<lambda>n d. 10 * n + unat (d - 0x30)) 0 s"

definition placeholder :: "nat \<Rightarrow> jstring" where
  "placeholder i = js ''[PROTECTED_'' @ decimal i @ js '']''"

text \<open>\<^verbatim>\<open>/```[\s\S]*?```/g\<close>\<close>

definition fence_re :: rx where
  "fence_re = seqs [Lit (js ''```''), LazyStar any_cls, Lit (js ''```'')]"

text \<open>
  \<^verbatim>\<open><((?:details|div|table|section|aside|article|nav|pre|fieldset|figure|\w+[-_]\w[\w-]*))(\b[^>]*)>[\s\S]*?<\/\1>\<close>
  with the flags \<^verbatim>\<open>gi\<close>.
\<close>

definition blockTags :: "rx list" where
  "blockTags = map (\<lambda>t. Lit (js t))
     [''details'', ''div'', ''table'', ''section'', ''aside'', ''article'', ''nav'', ''pre'',
      ''fieldset'', ''figure'']"

definition block_re :: rx where
  "block_re = seqs
     [Lit (js ''<''),
      Grp 1 (alts (blockTags @
        [seqs [Plus word_cls, Atom (Cls False [Ch (ch CHR ''-''), Ch (ch CHR ''_'')]),
               Atom word_cls, Star (Cls False [Wrd, Ch (ch CHR ''-'')])]])),
      Grp 2 (Seq WordB (Star (Cls True [Ch (ch CHR ''>'')]))),
      Lit (js ''>''), LazyStar any_cls, Lit (js ''</''), Back 1, Lit (js ''>'')]"

text \<open>\<^verbatim>\<open>/\[([A-Z_]+)\][\s\S]*?\[\/\1\]/gi\<close>\<close>

definition bracket_re :: rx where
  "bracket_re = seqs
     [Lit (js ''[''), Grp 1 (Plus (Cls False [Rng (ch CHR ''A'') (ch CHR ''Z''), Ch (ch CHR ''_'')])),
      Lit (js '']''), LazyStar any_cls, Lit (js ''[/''), Back 1, Lit (js '']'')]"

text \<open>The callback of the first two passes: push the match, return its placeholder.\<close>

definition protect :: "jstring \<Rightarrow> caps \<Rightarrow> jstring list \<Rightarrow> jstring \<times> jstring list" where
  "protect match c blocks =
     (let blocks = blocks @ [match] in (placeholder (length blocks - 1), blocks))"

text \<open>The callback of the third pass, \<open>tag\<close> being the first capture.\<close>

definition is_own_tag :: "jstring \<Rightarrow> bool" where
  "is_own_tag tag \<longleftrightarrow>
     toUpperCase tag = js ''CHANGELOG'' \<or> startsWith (toUpperCase tag) (js ''PROTECTED'')"

definition protect_bracket :: "jstring \<Rightarrow> caps \<Rightarrow> jstring list \<Rightarrow> jstring \<times> jstring list" where
  "protect_bracket match c blocks =
     (let tag = capture c 1 in
      if is_own_tag tag then (match, blocks) else protect match c blocks)"

record stripped_text =
  stripped :: jstring
  blocks :: "jstring list"

definition stripProtectedBlocks :: "jstring \<Rightarrow> stripped_text" where
  "stripProtectedBlocks text =
     (case replace_g text fence_re False protect [] of (result1, blocks1) \<Rightarrow>
      case replace_g result1 block_re True protect blocks1 of (result2, blocks2) \<Rightarrow>
      case replace_g result2 bracket_re True protect_bracket blocks2 of (result3, blocks3) \<Rightarrow>
        \<lparr>stripped = result3, blocks = blocks3\<rparr>)"

text \<open>\<^verbatim>\<open>/\[PROTECTED_(\d+)\]/g\<close>\<close>

definition placeholder_re :: rx where
  "placeholder_re = seqs [Lit (js ''[PROTECTED_''), Grp 1 (Plus digit_cls), Lit (js '']'')]"

text \<open>\<^verbatim>\<open>blocks[parseInt(idx, 10)] || ''\<close>: out of range the read is \<^verbatim>\<open>undefined\<close>.\<close>

definition block_or_empty :: "jstring list \<Rightarrow> jstring \<Rightarrow> jstring" where
  "block_or_empty bs idx = (let k = parseInt idx in if k < length bs then bs ! k else [])"

definition restore_callback :: "jstring list \<Rightarrow> jstring \<Rightarrow> caps \<Rightarrow> unit \<Rightarrow> jstring \<times> unit" where
  "restore_callback bs match c u =
     (block_or_empty bs (capture c 1), u)"

definition replace_placeholders :: "jstring \<Rightarrow> jstring list \<Rightarrow> jstring" where
  "replace_placeholders text bs = fst (replace_g text placeholder_re False (restore_callback bs) ())"

text \<open>The safety net: one round of the loop over the stored blocks.\<close>

definition append_missing :: "jstring \<Rightarrow> jstring list \<Rightarrow> jstring \<Rightarrow> nat \<Rightarrow> jstring" where
  "append_missing text bs result i =
     (if \<not> str_includes text (placeholder i) then result @ [0x0A] @ bs ! i else result)"

definition restoreProtectedBlocks :: "jstring \<Rightarrow> jstring list \<Rightarrow> jstring" where
  "restoreProtectedBlocks text bs =
     foldl (append_missing text bs) (replace_placeholders text bs) [0..<length bs]"

section \<open>Response parser\<close>

text \<open>\<^verbatim>\<open>/\[REFINED\]\s*([\s\S]*?)\s*\[\/REFINED\]/i\<close>\<close>

definition refined_re :: rx where
  "refined_re = seqs [Lit (js ''[REFINED]''), Star space_cls, Grp 1 (LazyStar any_cls),
                      Star space_cls, Lit (js ''[/REFINED]'')]"

text \<open>\<^verbatim>\<open>/\[CHANGELOG\]\s*([\s\S]*?)\s*\[\/CHANGELOG\]/i\<close>\<close>

definition changelog_re :: rx where
  "changelog_re = seqs [Lit (js ''[CHANGELOG]''), Star space_cls, Grp 1 (LazyStar any_cls),
                        Star space_cls, Lit (js ''[/CHANGELOG]'')]"

text \<open>\<^verbatim>\<open>/\[CHANGELOG\]\s*([\s\S]*?)$/i\<close>\<close>

definition unclosed_re :: rx where
  "unclosed_re = seqs [Lit (js ''[CHANGELOG]''), Star space_cls, Grp 1 (LazyStar any_cls), Eos]"

text \<open>\<^verbatim>\<open>/\n\s*\n/\<close>\<close>

definition blank_line_re :: rx where
  "blank_line_re = seqs [Lit [0x0A], Star space_cls, Lit [0x0A]]"

text \<open>\<^verbatim>\<open>/\[\/?(?:REFINED|CHANGELOG)\]/gi\<close>\<close>

definition marker_re :: rx where
  "marker_re = seqs [Lit (js ''[''), Opt (Cls False [Ch (ch CHR ''/'')]),
                     Alt (Lit (js ''REFINED'')) (Lit (js ''CHANGELOG'')), Lit (js '']'')]"

definition strip_markers :: "jstring \<Rightarrow> jstring" where
  "strip_markers s = fst (replace_g s marker_re True (\<lambda>mt c u. ([], u)) ())"

record parsed_response =
  changelog :: "jstring option"
  refined :: jstring

text \<open>
  The extraction chain of \<^verbatim>\<open>parseChangelog\<close>: the change log and the value of the
  variable \<^verbatim>\<open>refined\<close> before the fallback, \<open>None\<close> while it is still undefined.
\<close>

definition extract_tags :: "jstring \<Rightarrow> jstring option \<times> jstring option" where
  "extract_tags responseText =
     (case str_match responseText refined_re True of
        Some refinedMatch \<Rightarrow>
          (case str_match responseText changelog_re True of
             Some changelogMatch \<Rightarrow> Some (trim (group changelogMatch 1))
           | None \<Rightarrow> None,
           Some (trim (group refinedMatch 1)))
      | None \<Rightarrow>
          (case str_match responseText changelog_re True of
             Some mt \<Rightarrow>
               (Some (trim (group mt 1)),
                Some (trim (substring_from responseText (index mt + length (matched mt)))))
           | None \<Rightarrow>
               (case str_match responseText unclosed_re True of
                  Some mt \<Rightarrow>
                    (let remainder = group mt 1 in
                     case str_match remainder blank_line_re False of
                       Some sp \<Rightarrow>
                         (Some (trim (substring remainder 0 (index sp))),
                          Some (trim (substring_from remainder (index sp))))
                     | None \<Rightarrow> (None, None))
                | None \<Rightarrow> (None, None))))"

definition parseChangelog :: "jstring \<Rightarrow> parsed_response" where
  "parseChangelog responseText =
     (case extract_tags responseText of (cl, r) \<Rightarrow>
        let r1 = (case r of None \<Rightarrow> trim responseText
                  | Some t \<Rightarrow> if t = [] then trim responseText else t)
        in \<lparr>changelog = cl, refined = trim (strip_markers r1)\<rparr>)"

section \<open>Point of view detector\<close>

definition bounded_words :: "string list \<Rightarrow> rx" where
  "bounded_words ws = seqs [WordB, Grp 1 (alts (map (\<lambda>w. Lit (js w)) ws)), WordB]"

text \<open>\<^verbatim>\<open>/\b(i|me|my|myself|mine)\b/g\<close>\<close>

definition first_re :: rx where
  "first_re = bounded_words [''i'', ''me'', ''my'', ''myself'', ''mine'']"

text \<open>\<^verbatim>\<open>/\b(you|your|yours|yourself)\b/g\<close>\<close>

definition second_re :: rx where
  "second_re = bounded_words [''you'', ''your'', ''yours'', ''yourself'']"

text \<open>\<^verbatim>\<open>/\b(he|she|they|him|her|them|his|hers|their|theirs)\b/g\<close>\<close>

definition third_re :: rx where
  "third_re = bounded_words [''he'', ''she'', ''they'', ''him'', ''her'', ''them'', ''his'',
                             ''hers'', ''their'', ''theirs'']"

datatype pov = Pov_1st | Pov_1_5 | Pov_2nd | Pov_3rd

record pronoun_counts =
  first :: nat
  second :: nat
  third :: nat

text \<open>
  \<^verbatim>\<open>String.prototype.toLowerCase\<close> follows the Unicode case tables of the host; it is a
  parameter here. \<open>map lower_ascii\<close> is what it does on ASCII text.
\<close>

definition count_pronouns :: "(jstring \<Rightarrow> jstring) \<Rightarrow> jstring \<Rightarrow> pronoun_counts" where
  "count_pronouns toLowerCase text =
     (let lower = toLowerCase text in
      \<lparr>first = length (match_g lower first_re False),
       second = length (match_g lower second_re False),
       third = length (match_g lower third_re False)\<rparr>)"

text \<open>
  The counts are integers held in doubles, and \<^verbatim>\<open>total * 0.2\<close> is a product of doubles:
  the constant is \<open>7205759403792794 * 2\<^sup>-\<^sup>5\<^sup>5\<close>, and the exact product is rounded to 53
  significant bits, ties to even. \<open>times_0_2\<close> gives the rounded product in units of
  \<open>2\<^sup>-\<^sup>5\<^sup>5\<close>; \<open>exceeds n d\<close> compares the integer \<open>n\<close> with such a value.
\<close>

fun bitlen :: "nat \<Rightarrow> nat" where
  "bitlen n = (if n = 0 then 0 else Suc (bitlen (n div 2)))"

declare bitlen.simps [simp del]

definition round53 :: "nat \<Rightarrow> nat" where
  "round53 p =
     (let sh = bitlen p - 53 in
      if sh = 0 then p
      else let q = p div 2 ^ sh; r = p mod 2 ^ sh; half = 2 ^ (sh - 1) in
           if r > half \<or> (r = half \<and> odd q) then (q + 1) * 2 ^ sh else q * 2 ^ sh)"

definition times_0_2 :: "nat \<Rightarrow> nat" where
  "times_0_2 tot = round53 (tot * 7205759403792794)"

definition exceeds :: "nat \<Rightarrow> nat \<Rightarrow> bool" where
  "exceeds n d \<longleftrightarrow> n * 2 ^ 55 > d"

definition classify :: "pronoun_counts \<Rightarrow> pov option" where
  "classify n =
     (let total = first n + second n + third n in
      if total < 3 then None
      else if exceeds (first n) (times_0_2 total) \<and> exceeds (second n) (times_0_2 total)
        then Some Pov_1_5
      else if first n > second n \<and> first n > third n then Some Pov_1st
      else if second n > first n \<and> second n > third n then Some Pov_2nd
      else if third n > first n \<and> third n > second n then Some Pov_3rd
      else None)"

definition detectPov :: "(jstring \<Rightarrow> jstring) \<Rightarrow> jstring \<Rightarrow> pov option" where
  "detectPov toLowerCase text = classify (count_pronouns toLowerCase text)"

section \<open>Notions used in the statements\<close>

text \<open>The text a piece of a scan stands for.\<close>

fun piece_text :: "piece \<Rightarrow> jstring" where
  "piece_text (Keep x) = [x]"
| "piece_text (Hit mt c) = mt"

text \<open>The code unit before a position, once \<open>ys\<close> has been consumed.\<close>

definition prev_after :: "cu option \<Rightarrow> jstring \<Rightarrow> cu option" where
  "prev_after prev ys = (if ys = [] then prev else Some (last ys))"

text \<open>
  The code units a tag name of the third pass is made of, under the \<^verbatim>\<open>i\<close> flag, and the code
  units that are not letters.
\<close>

definition is_tag_char :: "cu \<Rightarrow> bool" where
  "is_tag_char c \<longleftrightarrow> is_upper c \<or> is_lower c \<or> c = 0x5F"

definition caseless :: "cu \<Rightarrow> bool" where
  "caseless c \<longleftrightarrow> \<not> is_upper c \<and> \<not> is_lower c"

text \<open>
  A text without protectable markup: no code fence, no block-level or hyphen or underscore
  tag element, and no bracket block that the third pass would strip.
\<close>

fun own_or_kept :: "piece \<Rightarrow> bool" where
  "own_or_kept (Keep x) = True"
| "own_or_kept (Hit mt c) = is_own_tag (capture c 1)"

definition no_protectable_markup :: "jstring \<Rightarrow> bool" where
  "no_protectable_markup t \<longleftrightarrow>
     match_g t fence_re False = [] \<and> match_g t block_re True = [] \<and>
     list_all own_or_kept (scan bracket_re True None t)"

definition no_placeholder_token :: "jstring \<Rightarrow> bool" where
  "no_placeholder_token t \<longleftrightarrow> match_g t placeholder_re False = []"


text \<open>
  The index of the first occurrence of a literal in a text, and the inner content of the
  first closed pair of tags: what stands between the first opening tag and the first
  closing tag after it. \<open>tag_re\<close> is the shape the two closed-pair patterns share.
\<close>

fun find_lit :: "bool \<Rightarrow> jstring \<Rightarrow> jstring \<Rightarrow> nat option" where
  "find_lit ic L [] = (if lit_at ic L [] then Some 0 else None)"
| "find_lit ic L (x # xs) =
     (if lit_at ic L (x # xs) then Some 0 else map_option Suc (find_lit ic L xs))"

definition inner_content :: "jstring \<Rightarrow> jstring \<Rightarrow> jstring \<Rightarrow> jstring option" where
  "inner_content opn cls raw =
     (case find_lit True opn raw of
        None \<Rightarrow> None
      | Some i \<Rightarrow>
          (let after = drop (i + length opn) raw in
           case find_lit True cls after of
             None \<Rightarrow> None
           | Some j \<Rightarrow> Some (take j after)))"

definition tag_re :: "jstring \<Rightarrow> jstring \<Rightarrow> rx" where
  "tag_re opn cls =
     Seq (Lit opn) (Seq (Star space_cls) (Seq (Grp 1 (LazyStar any_cls))
       (Seq (Star space_cls) (Lit cls))))"

section \<open>Properties of strings and code units\<close>

lemma upper_of_lower:
  assumes "is_lower c"
  shows "is_upper (c - 0x20)"
proof -
  from assms have u: "97 \<le> unat c" "unat c \<le> 122"
    by (simp_all add: is_lower_def word_le_nat_alt)
  have "(0x20 :: cu) \<le> c" using u(1) by (simp add: word_le_nat_alt)
  then have "unat (c - 0x20) = unat c - 32" by (simp add: unat_sub)
  with u show ?thesis by (simp add: is_upper_def word_le_nat_alt, arith)
qed

lemma upper_ascii_of_lower: "is_lower c \<Longrightarrow> is_upper (upper_ascii c)"
  by (simp add: upper_ascii_def upper_of_lower)

lemma lower_of_upper:
  assumes "is_upper c"
  shows "is_lower (c + 0x20)"
proof -
  from assms have u: "65 \<le> unat c" "unat c \<le> 90"
    by (simp_all add: is_upper_def word_le_nat_alt)
  then have "unat c + unat (0x20 :: cu) < 2 ^ LENGTH(16)" by simp
  then have "unat (c + 0x20) = unat c + 32" by (simp add: unat_add_lem [THEN iffD1])
  with u show ?thesis by (simp add: is_lower_def word_le_nat_alt)
qed

lemma not_upper_and_lower: "is_upper c \<Longrightarrow> \<not> is_lower c"
  by (simp add: is_upper_def is_lower_def word_le_nat_alt)

lemma letters_not_space: "is_upper c \<or> is_lower c \<Longrightarrow> \<not> is_space c"
  by (auto simp: is_space_def is_upper_def is_lower_def word_le_nat_alt)

lemma is_space_upper: "is_space (upper_ascii c) = is_space c"
  using letters_not_space [of c] letters_not_space [of "upper_ascii c"] upper_ascii_of_lower [of c]
  by (cases "is_lower c") (auto simp: upper_ascii_def)

lemma is_space_lower: "is_space (lower_ascii c) = is_space c"
  using letters_not_space [of c] letters_not_space [of "lower_ascii c"] lower_of_upper [of c]
  by (cases "is_upper c") (auto simp: lower_ascii_def)

lemma ceq_refl: "ceq ic a a"
  by (simp add: ceq_def)

lemma list_all2_ceq_refl: "list_all2 (ceq ic) s s"
  by (simp add: list_all2_same ceq_refl)

lemma ceq_caseless: "caseless a \<Longrightarrow> ceq ic a c \<longleftrightarrow> c = a"
  using upper_of_lower [of c]
  by (auto simp: ceq_def upper_ascii_def caseless_def)

lemma ceq_caseless_right: "caseless c \<Longrightarrow> ceq ic a c \<longleftrightarrow> a = c"
  using ceq_caseless [of c ic a] by (auto simp: ceq_def)

lemma caseless_lbracket: "caseless 0x5B"
  by (simp add: caseless_def is_upper_def is_lower_def)

lemma caseless_lt: "caseless 0x3C"
  by (simp add: caseless_def is_upper_def is_lower_def)

lemma caseless_backtick: "caseless 0x60"
  by (simp add: caseless_def is_upper_def is_lower_def)

lemma not_space_lbracket: "\<not> is_space 0x5B"
  by (simp add: is_space_def)

lemma not_tag_char_rbracket: "\<not> is_tag_char 0x5D"
  by (simp add: is_tag_char_def is_upper_def is_lower_def)

lemma tag_char_not_special:
  "is_tag_char c \<Longrightarrow> c \<noteq> 0x5B \<and> c \<noteq> 0x3C \<and> c \<noteq> 0x60"
  by (auto simp: is_tag_char_def is_upper_def is_lower_def)

lemma not_digit_rbracket: "\<not> is_digit (0x5D :: cu)"
  by (simp add: is_digit_def)

lemma not_digit_lbracket: "\<not> is_digit (0x5B :: cu)"
  by (simp add: is_digit_def)

lemma trim_decomp:
  "\<exists>ws1 ws2. s = ws1 @ trim s @ ws2 \<and> list_all is_space ws1 \<and> list_all is_space ws2 \<and>
     (trim s = [] \<longrightarrow> ws2 = []) \<and>
     (trim s \<noteq> [] \<longrightarrow> \<not> is_space (hd (trim s)) \<and> \<not> is_space (last (trim s)))"
proof -
  define core where "core = dropWhile is_space s"
  define g where "g = rev (dropWhile is_space (rev core))"
  define ws2 where "ws2 = rev (takeWhile is_space (rev core))"
  have g: "trim s = g" by (simp add: trim_def g_def core_def)
  have s: "s = takeWhile is_space s @ core" by (simp add: core_def)
  have "core = rev (takeWhile is_space (rev core) @ dropWhile is_space (rev core))" by simp
  also have "\<dots> = rev (dropWhile is_space (rev core)) @ rev (takeWhile is_space (rev core))"
    by (rule rev_append)
  finally have core: "core = g @ ws2" by (simp only: g_def ws2_def)
  have w1: "list_all is_space (takeWhile is_space s)"
    by (simp add: list_all_iff) (meson set_takeWhileD)
  have w2: "list_all is_space ws2"
    by (simp add: list_all_iff ws2_def) (meson set_takeWhileD)
  have last: "\<not> is_space (last g)" if "g \<noteq> []"
  proof -
    from that have ne: "dropWhile is_space (rev core) \<noteq> []" by (simp add: g_def)
    then have "\<not> is_space (hd (dropWhile is_space (rev core)))" by (rule hd_dropWhile)
    moreover have "last g = hd (dropWhile is_space (rev core))"
      using ne by (simp add: g_def last_rev)
    ultimately show ?thesis by simp
  qed
  have hd: "\<not> is_space (hd g)" if "g \<noteq> []"
  proof -
    from that core have "core \<noteq> []" by auto
    then have "\<not> is_space (hd core)" unfolding core_def by (rule hd_dropWhile)
    with that core show ?thesis by (cases g) auto
  qed
  have empty: "ws2 = []" if "g = []"
  proof (rule ccontr)
    assume "ws2 \<noteq> []"
    with that core have c: "core = ws2" "core \<noteq> []" by auto
    then have "\<not> is_space (hd core)" unfolding core_def by (intro hd_dropWhile) simp
    moreover from w2 c have "is_space (hd core)" by (cases core) auto
    ultimately show False by simp
  qed
  have "s = takeWhile is_space s @ trim s @ ws2" using s core g by simp
  with w1 w2 last hd empty g show ?thesis by metis
qed

lemma trim_idem: "trim (trim s) = trim s"
proof (cases "trim s = []")
  case True
  show ?thesis unfolding True by (simp add: trim_def)
next
  case False
  with trim_decomp [of s] have ends: "\<not> is_space (hd (trim s))" "\<not> is_space (last (trim s))"
    by auto
  from False ends(1) have 1: "dropWhile is_space (trim s) = trim s"
    by (cases "trim s") auto
  from False ends(2) have "\<not> is_space (hd (rev (trim s)))" by (simp add: hd_rev)
  with False have 2: "dropWhile is_space (rev (trim s)) = rev (trim s)"
    by (cases "rev (trim s)") auto
  show ?thesis
    unfolding trim_def [of "trim s"] 1 2 by simp
qed

lemma trim_empty_iff: "trim s = [] \<longleftrightarrow> list_all is_space s"
proof
  assume "trim s = []"
  with trim_decomp [of s] show "list_all is_space s" by auto
next
  assume "list_all is_space s"
  then have d: "dropWhile is_space s = []" by (simp add: list_all_iff dropWhile_eq_Nil_conv)
  show "trim s = []" unfolding trim_def d by simp
qed

lemma set_trim: "set (trim s) \<subseteq> set s"
  using trim_decomp [of s] by (metis Un_iff set_append subsetI)

lemma startsWith_prefix: "startsWith s p \<longleftrightarrow> prefix p s"
  unfolding startsWith_def
  by (metis append_eq_conv_conj prefix_def take_is_prefix)

lemma str_includes_iff: "str_includes t p \<longleftrightarrow> (\<exists>pre post. t = pre @ p @ post)"
proof (induction t)
  case Nil
  then show ?case by simp
next
  case (Cons x xs)
  show ?case
  proof
    assume "str_includes (x # xs) p"
    then consider "prefix p (x # xs)" | "str_includes xs p" by (auto simp: startsWith_prefix)
    then show "\<exists>pre post. x # xs = pre @ p @ post"
    proof cases
      case 1
      then obtain post where "x # xs = [] @ p @ post" by (auto simp: prefix_def)
      then show ?thesis by blast
    next
      case 2
      with Cons.IH obtain pre post where "xs = pre @ p @ post" by blast
      then have "x # xs = (x # pre) @ p @ post" by simp
      then show ?thesis by blast
    qed
  next
    assume "\<exists>pre post. x # xs = pre @ p @ post"
    then obtain pre post where eq: "x # xs = pre @ p @ post" by blast
    show "str_includes (x # xs) p"
    proof (cases pre)
      case Nil
      with eq have "prefix p (x # xs)" by (simp add: prefix_def)
      then show ?thesis by (simp add: startsWith_prefix)
    next
      case (Cons y pre')
      with eq have "xs = pre' @ p @ post" by simp
      with Cons.IH have "str_includes xs p" by blast
      then show ?thesis by simp
    qed
  qed
qed

lemma digit_of_nat:
  assumes "d < 10"
  shows "is_digit (0x30 + of_nat d)" and "unat ((0x30 + of_nat d :: cu) - 0x30) = d"
proof -
  from assms have "d \<in> {0, 1, 2, 3, 4, 5, 6, 7, 8, 9}" by auto
  then show "is_digit (0x30 + of_nat d)" by (auto simp: is_digit_def)
  from assms show "unat ((0x30 + of_nat d :: cu) - 0x30) = d"
    by (simp add: unat_of_nat)
qed

lemma parseInt_snoc: "parseInt (xs @ [d]) = 10 * parseInt xs + unat (d - 0x30)"
  by (simp add: parseInt_def)

lemma decimal_digits: "list_all is_digit (decimal n) \<and> decimal n \<noteq> [] \<and> parseInt (decimal n) = n"
proof (induction n rule: decimal.induct)
  case (1 n)
  show ?case
  proof (cases "n < 10")
    case True
    then have "decimal n = [0x30 + of_nat n]" by (subst decimal.simps) simp
    with digit_of_nat [OF True] show ?thesis by (simp add: parseInt_def)
  next
    case False
    then have d: "decimal n = decimal (n div 10) @ [0x30 + of_nat (n mod 10)]"
      by (subst decimal.simps) simp
    have "n mod 10 < 10" by simp
    from digit_of_nat [OF this] "1.IH" [OF False] show ?thesis
      by (simp add: d parseInt_snoc)
  qed
qed

section \<open>Properties of the matcher\<close>

lemma prev_after_Nil [simp]: "prev_after prev [] = prev"
  by (simp add: prev_after_def)

lemma prev_after_Cons [simp]: "prev_after prev (x # xs) = prev_after (Some x) xs"
  by (simp add: prev_after_def)

lemma prev_after_snoc [simp]: "prev_after prev (xs @ [x]) = Some x"
  by (simp add: prev_after_def)

lemma prev_after_append: "prev_after prev (xs @ ys) = prev_after (prev_after prev xs) ys"
  by (induction xs arbitrary: prev) simp_all

lemma prev_after_nonempty: "ys \<noteq> [] \<Longrightarrow> prev_after p ys = Some (last ys)"
  by (simp add: prev_after_def)

lemma advance_suffix: "suffix (snd (advance p n)) (snd p)"
proof (induction p n rule: advance.induct)
  case (3 prev x xs n)
  then show ?case by (simp add: suffix_Cons)
qed simp_all

lemma advance_append: "advance (prev, ys @ zs) (length ys) = (prev_after prev ys, zs)"
  by (induction ys arbitrary: prev) simp_all

lemma advance_snd: "snd (advance p n) = drop n (snd p)"
  by (induction p n rule: advance.induct) simp_all

lemma lit_at_append:
  "length ys = length s \<Longrightarrow> lit_at ic s (ys @ zs) = list_all2 (ceq ic) s ys"
proof (induction ic s ys rule: lit_at.induct)
  case (1 ic rest)
  then show ?case by simp
next
  case (2 ic a as)
  then show ?case by simp
next
  case (3 ic a as c cs)
  then show ?case by simp
qed

lemma lit_at_split:
  "lit_at ic s rest \<Longrightarrow> \<exists>ys zs. rest = ys @ zs \<and> length ys = length s \<and> list_all2 (ceq ic) s ys"
proof (induction ic s rest rule: lit_at.induct)
  case (1 ic rest)
  then show ?case by simp
next
  case (2 ic a as)
  then show ?case by simp
next
  case (3 ic a as c cs)
  then obtain ys zs where "cs = ys @ zs" "length ys = length as" "list_all2 (ceq ic) as ys"
    by auto
  then have "c # cs = (c # ys) @ zs \<and> length (c # ys) = length (a # as) \<and>
      list_all2 (ceq ic) (a # as) (c # ys)"
    using 3 by simp
  then show ?case by blast
qed

lemma lit_at_exact: "lit_at False s rest \<longleftrightarrow> prefix s rest"
proof (induction "False" s rest rule: lit_at.induct)
  case (1 rest)
  then show ?case by simp
next
  case (2 a as)
  then show ?case by simp
next
  case (3 a as c cs)
  then show ?case by (auto simp: ceq_def)
qed

lemma lit_at_caseless:
  "caseless a \<Longrightarrow> lit_at ic (a # as) (x # xs) \<Longrightarrow> x = a"
  by (simp add: ceq_caseless)

lemma cls_mem_digit: "cls_mem False digit_cls = is_digit"
  by (rule ext) (simp add: digit_cls_def)

lemma cls_mem_any: "cls_mem ic any_cls c"
  by (simp add: any_cls_def)

lemma cls_mem_space: "cls_mem ic space_cls = is_space"
  by (rule ext) (auto simp: space_cls_def is_space_upper is_space_lower)

lemma tag_cls_mem:
  "cls_mem True (Cls False [Rng (ch CHR ''A'') (ch CHR ''Z''), Ch (ch CHR ''_'')]) c = is_tag_char c"
proof -
  have A: "ch CHR ''A'' = 0x41" and Z: "ch CHR ''Z'' = 0x5A" and U: "ch CHR ''_'' = 0x5F"
    by (simp_all add: ch_def)
  have mem: "cls_mem True (Cls False [Rng (ch CHR ''A'') (ch CHR ''Z''), Ch (ch CHR ''_'')]) c \<longleftrightarrow>
      is_upper c \<or> is_upper (upper_ascii c) \<or> is_upper (lower_ascii c) \<or>
      c = 0x5F \<or> upper_ascii c = 0x5F \<or> lower_ascii c = 0x5F"
    unfolding cls_mem.simps A Z U by (auto simp: is_upper_def)
  consider (lower) "is_lower c" | (upper) "is_upper c" | (other) "\<not> is_lower c" "\<not> is_upper c"
    by blast
  then show ?thesis
  proof cases
    case lower
    with upper_of_lower [OF lower] show ?thesis
      unfolding mem by (simp add: is_tag_char_def upper_ascii_def)
  next
    case upper
    then show ?thesis unfolding mem by (simp add: is_tag_char_def)
  next
    case other
    then show ?thesis
      unfolding mem by (simp add: is_tag_char_def upper_ascii_def lower_ascii_def)
  qed
qed

lemma star_g_suffix:
  "star_g P prev xs k = Some r \<Longrightarrow> \<exists>p'. k p' = Some r \<and> suffix (snd p') xs"
proof (induction xs arbitrary: prev)
  case Nil
  then show ?case by auto
next
  case (Cons x xs)
  show ?case
  proof (cases "P x \<and> star_g P (Some x) xs k \<noteq> None")
    case True
    then have "star_g P (Some x) xs k = Some r" using Cons.prems by auto
    from Cons.IH [OF this] show ?thesis by (auto simp: suffix_Cons)
  next
    case False
    then have "k (prev, x # xs) = Some r" using Cons.prems by (auto split: if_splits)
    then show ?thesis by force
  qed
qed

lemma star_l_suffix:
  "star_l P prev xs k = Some r \<Longrightarrow> \<exists>p'. k p' = Some r \<and> suffix (snd p') xs"
proof (induction xs arbitrary: prev)
  case Nil
  then show ?case by auto
next
  case (Cons x xs)
  show ?case
  proof (cases "k (prev, x # xs)")
    case (Some a)
    then show ?thesis using Cons.prems by force
  next
    case None
    then have "P x" and "star_l P (Some x) xs k = Some r"
      using Cons.prems by (auto split: if_splits)
    from Cons.IH [OF this(2)] show ?thesis by (auto simp: suffix_Cons)
  qed
qed

lemma star_g_sound:
  "star_g P prev xs k = Some r \<Longrightarrow>
   \<exists>ys zs. xs = ys @ zs \<and> list_all P ys \<and> k (prev_after prev ys, zs) = Some r"
proof (induction xs arbitrary: prev)
  case Nil
  then show ?case by simp
next
  case (Cons x xs)
  show ?case
  proof (cases "P x \<and> star_g P (Some x) xs k \<noteq> None")
    case True
    then have "star_g P (Some x) xs k = Some r" using Cons.prems by auto
    from Cons.IH [OF this] obtain ys zs where
      "xs = ys @ zs" "list_all P ys" "k (prev_after (Some x) ys, zs) = Some r" by blast
    with True have "x # xs = (x # ys) @ zs \<and> list_all P (x # ys) \<and>
        k (prev_after prev (x # ys), zs) = Some r" by simp
    then show ?thesis by blast
  next
    case False
    then have "k (prev, x # xs) = Some r" using Cons.prems by (auto split: if_splits)
    then have "x # xs = [] @ (x # xs) \<and> list_all P [] \<and> k (prev_after prev [], x # xs) = Some r"
      by simp
    then show ?thesis by blast
  qed
qed

lemma star_l_sound:
  "star_l P prev xs k = Some r \<Longrightarrow>
   \<exists>ys zs. xs = ys @ zs \<and> list_all P ys \<and> k (prev_after prev ys, zs) = Some r"
proof (induction xs arbitrary: prev)
  case Nil
  then show ?case by simp
next
  case (Cons x xs)
  show ?case
  proof (cases "k (prev, x # xs)")
    case (Some a)
    with Cons.prems have "k (prev, x # xs) = Some r" by simp
    then have "x # xs = [] @ (x # xs) \<and> list_all P [] \<and> k (prev_after prev [], x # xs) = Some r"
      by simp
    then show ?thesis by blast
  next
    case None
    then have px: "P x" and "star_l P (Some x) xs k = Some r"
      using Cons.prems by (auto split: if_splits)
    from Cons.IH [OF this(2)] obtain ys zs where
      "xs = ys @ zs" "list_all P ys" "k (prev_after (Some x) ys, zs) = Some r" by blast
    with px have "x # xs = (x # ys) @ zs \<and> list_all P (x # ys) \<and>
        k (prev_after prev (x # ys), zs) = Some r" by simp
    then show ?thesis by blast
  qed
qed

text \<open>A greedy loop takes the whole run when the continuation accepts after it.\<close>

lemma star_g_max:
  assumes "list_all P ys" and "zs = [] \<or> \<not> P (hd zs)"
    and "k (prev_after prev ys, zs) = Some r"
  shows "star_g P prev (ys @ zs) k = Some r"
  using assms
proof (induction ys arbitrary: prev)
  case Nil
  then show ?case by (cases zs) auto
next
  case (Cons y ys)
  then have "star_g P (Some y) (ys @ zs) k = Some r" by simp
  with Cons.prems show ?case by simp
qed

text \<open>A lazy loop stops at the first position where the continuation accepts.\<close>

lemma star_l_first:
  assumes "list_all P ys"
    and "\<And>i. i < length ys \<Longrightarrow> k (prev_after prev (take i ys), drop i ys @ zs) = None"
    and "k (prev_after prev ys, zs) = Some r"
  shows "star_l P prev (ys @ zs) k = Some r"
  using assms
proof (induction ys arbitrary: prev)
  case Nil
  then show ?case by (cases zs) auto
next
  case (Cons y ys)
  from Cons.prems(2) [of 0] have 0: "k (prev, y # ys @ zs) = None" by simp
  have "k (prev_after (Some y) (take i ys), drop i ys @ zs) = None" if "i < length ys" for i
    using Cons.prems(2) [of "Suc i"] that by simp
  with Cons have "star_l P (Some y) (ys @ zs) k = Some r" by simp
  with 0 Cons.prems(1) show ?case by simp
qed

lemma m_suffix:
  "m r ic p c k = Some res \<Longrightarrow> \<exists>p' c'. k p' c' = Some res \<and> suffix (snd p') (snd p)"
proof (induction r arbitrary: p c k)
  case (Lit s)
  then have "k (advance p (length s)) c = Some res" by (simp split: if_splits)
  with advance_suffix [of p "length s"] show ?case by blast
next
  case (Atom cl)
  then show ?case by (cases p) (auto split: list.splits if_splits simp: suffix_Cons)
next
  case (Seq a b)
  from Seq.prems have "m a ic p c (\<lambda>p' c'. m b ic p' c' k) = Some res" by simp
  from Seq.IH(1) [OF this] obtain p1 c1 where
    1: "m b ic p1 c1 k = Some res" and s1: "suffix (snd p1) (snd p)" by auto
  from Seq.IH(2) [OF 1] obtain p2 c2 where
    "k p2 c2 = Some res" and "suffix (snd p2) (snd p1)" by auto
  with s1 show ?case using suffix_order.trans by blast
next
  case (Alt a b)
  then show ?case by (auto split: option.splits)
next
  case (Star cl)
  then show ?case using star_g_suffix [of "cls_mem ic cl" "fst p" "snd p" "\<lambda>p'. k p' c" res]
    by auto
next
  case (LazyStar cl)
  then show ?case using star_l_suffix [of "cls_mem ic cl" "fst p" "snd p" "\<lambda>p'. k p' c" res]
    by auto
next
  case (Plus cl)
  then obtain x xs where px: "snd p = x # xs" and
    "star_g (cls_mem ic cl) (Some x) xs (\<lambda>p'. k p' c) = Some res"
    by (auto split: list.splits if_splits)
  from star_g_suffix [OF this(2)] px show ?case by (auto simp: suffix_Cons)
next
  case (Opt cl)
  then show ?case
    by (cases p) (auto split: list.splits if_splits option.splits simp: suffix_Cons)
next
  case (Grp n a)
  from Grp.prems have
    "m a ic p c (\<lambda>p' c'. k p' ((n, take (length (snd p) - length (snd p')) (snd p)) # c')) = Some res"
    by simp
  from Grp.IH [OF this] show ?case by blast
next
  case (Back n)
  show ?case
  proof (cases "map_of c n")
    case None
    with Back have "k p c = Some res" by simp
    then show ?thesis by blast
  next
    case (Some s)
    with Back have "k (advance p (length s)) c = Some res" by (simp split: if_splits)
    with advance_suffix [of p "length s"] show ?thesis by blast
  qed
next
  case WordB
  then have "k p c = Some res" by (simp split: if_splits)
  then show ?case by blast
next
  case Eos
  then have "k p c = Some res" by (simp split: if_splits)
  then show ?case by blast
qed

lemma m_Seq_suffix:
  assumes "m (Seq a b) ic p c k = Some q"
  shows "\<exists>p1 c1. m b ic p1 c1 k = Some q \<and> suffix (snd p1) (snd p)"
proof -
  from assms have "m a ic p c (\<lambda>p' c'. m b ic p' c' k) = Some q" by simp
  from m_suffix [OF this] show ?thesis .
qed

lemma m_Lit_append:
  "length ys = length s \<Longrightarrow>
   m (Lit s) ic (prev, ys @ zs) c k =
     (if list_all2 (ceq ic) s ys then k (prev_after prev ys, zs) c else None)"
  using advance_append [of prev ys zs] by (simp add: lit_at_append)

lemma m_Seq_Lit_self:
  "m (Seq (Lit s) r) ic (prev, s @ zs) c k = m r ic (prev_after prev s, zs) c k"
  using advance_append [of prev s zs] by (simp add: lit_at_append list_all2_ceq_refl)

lemma m_Seq_Lit_occ:
  "list_all2 (ceq ic) s ys \<Longrightarrow>
   m (Seq (Lit s) r) ic (prev, ys @ zs) c k = m r ic (prev_after prev ys, zs) c k"
  using advance_append [of prev ys zs] list_all2_lengthD [of "ceq ic" s ys]
  by (simp add: lit_at_append)

lemma m_Seq_Lit_Some:
  "m (Seq (Lit s) r) ic p c k = Some q \<Longrightarrow>
   lit_at ic s (snd p) \<and> m r ic (advance p (length s)) c k = Some q"
  by (simp split: if_splits)

lemma match_at_Some:
  assumes "match_at r ic prev rest = Some (mt, p', c)"
  shows "rest = mt @ snd p'"
proof -
  from assms have q: "m r ic (prev, rest) [] (\<lambda>p c. Some (p, c)) = Some (p', c)"
    and mt: "mt = take (length rest - length (snd p')) rest"
    by (simp_all add: match_at_def split: option.splits prod.splits)
  from m_suffix [OF q] have "suffix (snd p') rest" by auto
  then obtain ys where "rest = ys @ snd p'" by (auto simp: suffix_def)
  with mt show ?thesis by simp
qed

lemma match_at_from_m:
  "m r ic (prev, mt @ rest') [] (\<lambda>p c. Some (p, c)) = Some ((q, rest'), c) \<Longrightarrow>
   match_at r ic prev (mt @ rest') = Some (mt, (q, rest'), c)"
  by (simp add: match_at_def)

lemma match_at_Lit_start:
  "\<not> lit_at ic s rest \<Longrightarrow> match_at (Seq (Lit s) r) ic prev rest = None"
  by (simp add: match_at_def)

lemma exec_from_None:
  "(\<And>z prev'. suffix z s \<Longrightarrow> match_at r ic prev' z = None) \<Longrightarrow> exec_from r ic n prev s = None"
proof (induction s arbitrary: n prev)
  case Nil
  then show ?case by simp
next
  case (Cons x xs)
  have "match_at r ic prev (x # xs) = None" by (rule Cons.prems) simp
  moreover have "exec_from r ic (Suc n) (Some x) xs = None"
    by (rule Cons.IH) (simp add: Cons.prems suffix_Cons)
  ultimately show ?case by simp
qed

lemma exec_from_here:
  "match_at r ic prev s = Some (mt, p', c) \<Longrightarrow>
   exec_from r ic n prev s = Some \<lparr>index = n, matched = mt, groups = c\<rparr>"
  by (cases s) simp_all

lemma exec_from_at:
  assumes "\<And>j prev'. j < length pre \<Longrightarrow> match_at r ic prev' (drop j pre @ rest) = None"
    and "\<And>prev'. match_at r ic prev' rest = Some (mt, p' prev', c)"
  shows "exec_from r ic n prev (pre @ rest) = Some \<lparr>index = n + length pre, matched = mt, groups = c\<rparr>"
  using assms(1)
proof (induction pre arbitrary: n prev)
  case Nil
  from exec_from_here [OF assms(2)] show ?case by simp
next
  case (Cons x pre)
  from Cons.prems [of 0] have "match_at r ic prev (x # pre @ rest) = None" by simp
  moreover have "exec_from r ic (Suc n) (Some x) (pre @ rest) =
      Some \<lparr>index = Suc n + length pre, matched = mt, groups = c\<rparr>"
  proof (rule Cons.IH)
    fix j prev'
    assume "j < length pre"
    then show "match_at r ic prev' (drop j pre @ rest) = None"
      using Cons.prems [of "Suc j" prev'] by simp
  qed
  ultimately show ?case by simp
qed

lemma find_lit_Some:
  "find_lit ic L s = Some i \<Longrightarrow>
   i \<le> length s \<and> lit_at ic L (drop i s) \<and> (\<forall>j<i. \<not> lit_at ic L (drop j s))"
proof (induction s arbitrary: i)
  case Nil
  then show ?case by (simp split: if_splits)
next
  case (Cons x xs)
  show ?case
  proof (cases "lit_at ic L (x # xs)")
    case True
    with Cons.prems show ?thesis by simp
  next
    case False
    with Cons.prems obtain i' where i': "find_lit ic L xs = Some i'" "i = Suc i'" by auto
    from Cons.IH [OF i'(1)] have IH: "i' \<le> length xs" "lit_at ic L (drop i' xs)"
      "\<forall>j<i'. \<not> lit_at ic L (drop j xs)" by auto
    have "\<not> lit_at ic L (drop j (x # xs))" if "j < i" for j
    proof (cases j)
      case 0
      with False show ?thesis by simp
    next
      case (Suc j')
      with that i'(2) IH(3) show ?thesis by simp
    qed
    with IH i'(2) show ?thesis by simp
  qed
qed

lemma find_lit_None: "find_lit ic L s = None \<Longrightarrow> suffix z s \<Longrightarrow> \<not> lit_at ic L z"
proof (induction s)
  case Nil
  then show ?case by (simp split: if_splits)
next
  case (Cons x xs)
  from Cons.prems(1) have 1: "\<not> lit_at ic L (x # xs)" and 2: "find_lit ic L xs = None"
    by (simp_all split: if_splits)
  from Cons.prems(2) have "z = x # xs \<or> suffix z xs" by (simp add: suffix_Cons)
  with 1 2 Cons.IH show ?case by auto
qed

lemma find_lit_occurs:
  "lit_at ic L z \<Longrightarrow> suffix z s \<Longrightarrow> \<exists>i. find_lit ic L s = Some i \<and> i + length z \<le> length s"
proof (induction s)
  case Nil
  then show ?case by simp
next
  case (Cons x xs)
  show ?case
  proof (cases "lit_at ic L (x # xs)")
    case True
    with suffix_length_le [OF Cons.prems(2)] show ?thesis by simp
  next
    case False
    with Cons.prems have "suffix z xs" by (auto simp: suffix_Cons)
    from Cons.IH [OF Cons.prems(1) this] False show ?thesis by auto
  qed
qed

lemma find_lit_absent:
  assumes "caseless a" and "a \<notin> set s"
  shows "find_lit ic (a # as) s = None"
  using assms(2)
proof (induction s)
  case Nil
  then show ?case by simp
next
  case (Cons x xs)
  then have "x \<noteq> a" by auto
  with lit_at_caseless [OF assms(1), of ic as x xs] have "\<not> lit_at ic (a # as) (x # xs)" by auto
  with Cons show ?case by simp
qed

lemma str_match_no_opening:
  assumes "find_lit ic opn raw = None"
  shows "str_match raw (Seq (Lit opn) r) ic = None"
  unfolding str_match_def
proof (rule exec_from_None)
  fix z prev'
  assume "suffix z raw"
  from find_lit_None [OF assms this] show "match_at (Seq (Lit opn) r) ic prev' z = None"
    by (rule match_at_Lit_start)
qed

lemma scan_concat: "concat (map piece_text (scan r ic prev rest)) = rest"
proof (induction r ic prev rest rule: scan.induct)
  case (1 r ic prev rest)
  show ?case
  proof (cases "match_at r ic prev rest")
    case None
    then show ?thesis
      using "1.IH"(1) by (subst scan.simps) (auto split: list.splits)
  next
    case (Some a)
    then obtain mt p' c where a: "a = (mt, p', c)" by (cases a) auto
    from match_at_Some [OF Some [unfolded a]] have rest: "rest = mt @ snd p'" .
    show ?thesis
    proof (cases "length (snd p') < length rest")
      case True
      then show ?thesis
        using "1.IH"(2) [OF Some [unfolded a] refl refl True] Some a rest
        by (subst scan.simps) simp
    next
      case False
      with rest have "mt = []" by (metis length_append less_add_same_cancel2 length_greater_0_conv)
      then show ?thesis
        using "1.IH"(3) [OF Some [unfolded a] refl refl False] Some a rest False
        by (subst scan.simps) (auto split: list.splits)
    qed
  qed
qed

lemma scan_Nil_None: "match_at r ic prev [] = None \<Longrightarrow> scan r ic prev [] = []"
  by (subst scan.simps) simp

lemma scan_Cons_None:
  "match_at r ic prev (x # xs) = None \<Longrightarrow> scan r ic prev (x # xs) = Keep x # scan r ic (Some x) xs"
  by (subst scan.simps) simp

lemma scan_Some:
  assumes "match_at r ic prev rest = Some (mt, (q, rest'), c)" and "length rest' < length rest"
  shows "scan r ic prev rest = Hit mt c # scan r ic q rest'"
  using assms by (subst scan.simps) simp

lemma scan_skip:
  assumes "caseless a" and "a \<notin> set pre"
  shows "scan (Seq (Lit (a # as)) r) ic prev (pre @ x # rest) =
           map Keep pre @ scan (Seq (Lit (a # as)) r) ic (prev_after prev pre) (x # rest)"
  using assms(2)
proof (induction pre arbitrary: prev)
  case Nil
  then show ?case by simp
next
  case (Cons y pre)
  then have "y \<noteq> a" by auto
  with lit_at_caseless [OF assms(1), of ic as y] have
    "\<not> lit_at ic (a # as) (y # pre @ x # rest)" by auto
  from scan_Cons_None [OF match_at_Lit_start [OF this]] Cons show ?case by simp
qed

lemma scan_skip_all:
  assumes "caseless a" and "a \<notin> set pre"
  shows "scan (Seq (Lit (a # as)) r) ic prev pre = map Keep pre"
  using assms(2)
proof (induction pre arbitrary: prev)
  case Nil
  have "\<not> lit_at ic (a # as) []" by simp
  from scan_Nil_None [OF match_at_Lit_start [OF this]] show ?case by simp
next
  case (Cons y pre)
  then have "y \<noteq> a" by auto
  with lit_at_caseless [OF assms(1), of ic as y] have
    "\<not> lit_at ic (a # as) (y # pre)" by auto
  from scan_Cons_None [OF match_at_Lit_start [OF this]] Cons show ?case by simp
qed

lemma match_g_pieces_Nil: "match_g_pieces ps = [] \<Longrightarrow> Hit mt c \<notin> set ps"
  by (induction ps rule: match_g_pieces.induct) auto

lemma replace_pieces_unchanged:
  assumes "\<And>mt c. Hit mt c \<in> set ps \<Longrightarrow> f mt c st = (mt, st)"
  shows "replace_pieces f ps st = (concat (map piece_text ps), st)"
  using assms
proof (induction ps)
  case Nil
  then show ?case by simp
next
  case (Cons p ps)
  then show ?case by (cases p) auto
qed

lemma replace_pieces_Keep:
  "replace_pieces f (map Keep xs) st = (xs, st)"
  by (induction xs) simp_all

lemma replace_pieces_append:
  "replace_pieces f (ps @ qs) st =
     (case replace_pieces f ps st of (out1, st1) \<Rightarrow>
        case replace_pieces f qs st1 of (out2, st2) \<Rightarrow> (out1 @ out2, st2))"
proof (induction ps arbitrary: st)
  case Nil
  then show ?case by (simp split: prod.splits)
next
  case (Cons p ps)
  then show ?case by (cases p) (simp_all split: prod.splits)
qed

lemma replace_g_no_match:
  assumes "match_g t r ic = []"
  shows "replace_g t r ic f st = (t, st)"
proof -
  have "replace_pieces f (scan r ic None t) st = (concat (map piece_text (scan r ic None t)), st)"
    using assms match_g_pieces_Nil [of "scan r ic None t"]
    by (intro replace_pieces_unchanged) (auto simp: match_g_def)
  then show ?thesis by (simp add: replace_g_def scan_concat)
qed

lemma replace_g_skip_all:
  assumes "caseless a" and "a \<notin> set t"
  shows "replace_g t (Seq (Lit (a # as)) r) ic f st = (t, st)"
  by (simp add: replace_g_def scan_skip_all [OF assms] replace_pieces_Keep)

section \<open>Properties of the diff engine\<close>

lemma seg_concat_append: "seg_concat K (xs @ ys) = seg_concat K xs @ seg_concat K ys"
  by (simp add: seg_concat_def)

lemma seg_concat_single:
  "seg_concat K [s] = (if seg_type s \<in> K then seg_text s else [])"
  by (simp add: seg_concat_def)

lemma seg_concat_Cons:
  "seg_concat K (s # xs) = (if seg_type s \<in> K then seg_text s else []) @ seg_concat K xs"
  by (simp add: seg_concat_def)

lemma concat_take_last:
  assumes "0 < i" "i \<le> length xs"
  shows "concat (take i xs) = concat (take (i - 1) xs) @ xs ! (i - 1)"
proof -
  from assms have "take i xs = take (i - 1) xs @ [xs ! (i - 1)]"
    by (metis Suc_pred' Suc_le_lessD take_Suc_conv_app_nth)
  then show ?thesis by simp
qed

lemma backtrace_original:
  "i \<le> length a \<Longrightarrow>
   seg_concat {Equal, Delete} (rev (backtrace a b dp i j diff)) =
     concat (take i a) @ seg_concat {Equal, Delete} (rev diff)"
proof (induction a b dp i j diff rule: backtrace.induct)
  case (1 a b dp i j diff)
  show ?case
  proof (cases "i > 0 \<or> j > 0")
    case False
    then have "backtrace a b dp i j diff = diff"
      by (subst backtrace.simps) simp
    with False show ?thesis by simp
  next
    case loop: True
    show ?thesis
    proof (cases "i > 0 \<and> j > 0 \<and> a ! (i - 1) = b ! (j - 1)")
      case True
      then have "backtrace a b dp i j diff =
          backtrace a b dp (i - 1) (j - 1) (diff @ [\<lparr>seg_type = Equal, seg_text = a ! (i - 1)\<rparr>])"
        by (subst backtrace.simps) simp
      moreover have "i - 1 \<le> length a" using "1.prems" by simp
      ultimately show ?thesis
        using "1.IH"(1) [OF loop True] True "1.prems"
        by (simp add: seg_concat_append seg_concat_single seg_concat_Cons concat_take_last)
    next
      case ne: False
      show ?thesis
      proof (cases "j > 0 \<and> (i = 0 \<or> dp ! i ! (j - 1) \<ge> dp ! (i - 1) ! j)")
        case True
        then have "backtrace a b dp i j diff =
            backtrace a b dp i (j - 1) (diff @ [\<lparr>seg_type = Insert, seg_text = b ! (j - 1)\<rparr>])"
          using ne by (subst backtrace.simps) auto
        then show ?thesis
          using "1.IH"(2) [OF loop ne True] "1.prems"
          by (simp add: seg_concat_append seg_concat_single seg_concat_Cons)
      next
        case False
        with loop have ipos: "0 < i" by auto
        from False ne loop have "backtrace a b dp i j diff =
            backtrace a b dp (i - 1) j (diff @ [\<lparr>seg_type = Delete, seg_text = a ! (i - 1)\<rparr>])"
          by (subst backtrace.simps) auto
        moreover have "i - 1 \<le> length a" using "1.prems" by simp
        ultimately show ?thesis
          using "1.IH"(3) [OF loop ne False] ipos "1.prems"
          by (simp add: seg_concat_append seg_concat_single seg_concat_Cons concat_take_last)
      qed
    qed
  qed
qed

lemma backtrace_refined:
  "j \<le> length b \<Longrightarrow>
   seg_concat {Equal, Insert} (rev (backtrace a b dp i j diff)) =
     concat (take j b) @ seg_concat {Equal, Insert} (rev diff)"
proof (induction a b dp i j diff rule: backtrace.induct)
  case (1 a b dp i j diff)
  show ?case
  proof (cases "i > 0 \<or> j > 0")
    case False
    then have "backtrace a b dp i j diff = diff"
      by (subst backtrace.simps) simp
    with False show ?thesis by simp
  next
    case loop: True
    show ?thesis
    proof (cases "i > 0 \<and> j > 0 \<and> a ! (i - 1) = b ! (j - 1)")
      case True
      then have "backtrace a b dp i j diff =
          backtrace a b dp (i - 1) (j - 1) (diff @ [\<lparr>seg_type = Equal, seg_text = a ! (i - 1)\<rparr>])"
        by (subst backtrace.simps) simp
      moreover have "j - 1 \<le> length b" using "1.prems" by simp
      ultimately show ?thesis
        using "1.IH"(1) [OF loop True] True "1.prems"
        by (simp add: seg_concat_append seg_concat_single seg_concat_Cons concat_take_last)
    next
      case ne: False
      show ?thesis
      proof (cases "j > 0 \<and> (i = 0 \<or> dp ! i ! (j - 1) \<ge> dp ! (i - 1) ! j)")
        case True
        then have "backtrace a b dp i j diff =
            backtrace a b dp i (j - 1) (diff @ [\<lparr>seg_type = Insert, seg_text = b ! (j - 1)\<rparr>])"
          using ne by (subst backtrace.simps) auto
        moreover have "j - 1 \<le> length b" using "1.prems" by simp
        ultimately show ?thesis
          using "1.IH"(2) [OF loop ne True] True "1.prems"
          by (simp add: seg_concat_append seg_concat_single seg_concat_Cons concat_take_last)
      next
        case False
        from False ne loop have "backtrace a b dp i j diff =
            backtrace a b dp (i - 1) j (diff @ [\<lparr>seg_type = Delete, seg_text = a ! (i - 1)\<rparr>])"
          by (subst backtrace.simps) auto
        then show ?thesis
          using "1.IH"(3) [OF loop ne False] "1.prems"
          by (simp add: seg_concat_append seg_concat_single seg_concat_Cons)
      qed
    qed
  qed
qed

lemma merge_step_concat:
  "seg_concat K (merge_step merged seg) = seg_concat K merged @ seg_concat K [seg]"
proof (cases merged rule: rev_cases)
  case Nil
  then show ?thesis by (simp add: merge_step_def seg_concat_def)
next
  case (snoc ms l)
  then show ?thesis
    by (simp add: merge_step_def seg_concat_def)
qed

lemma merge_loop_concat:
  "seg_concat K (foldl merge_step merged segs) = seg_concat K merged @ seg_concat K segs"
proof (induction segs arbitrary: merged)
  case Nil
  then show ?case by (simp add: seg_concat_def)
next
  case (Cons s segs)
  have "seg_concat K (s # segs) = seg_concat K [s] @ seg_concat K segs"
    using seg_concat_append [of K "[s]" segs] by simp
  then show ?case by (simp add: Cons.IH merge_step_concat)
qed

text \<open>
  Claim C1. For every pair of input strings, the segments of kind equal or delete of
  \<open>computeWordDiff original rewritten\<close>, concatenated in order, are the concatenation of
  \<open>tokenize original\<close>, and the segments of kind equal or insert, concatenated in order,
  are the concatenation of \<open>tokenize rewritten\<close>.
\<close>

theorem diff_reproduces_both_texts:
  "seg_concat {Equal, Delete} (computeWordDiff original rewritten) = concat (tokenize original) \<and>
   seg_concat {Equal, Insert} (computeWordDiff original rewritten) = concat (tokenize rewritten)"
proof -
  have e: "seg_concat K [] = []" for K by (simp add: seg_concat_def)
  show ?thesis
    by (simp add: computeWordDiff_def Let_def merge_loop_concat backtrace_original
        backtrace_refined e)
qed

text \<open>
  Claim C7. At a step of the backtrace where both indices are positive, the current tokens
  differ and \<open>dp[i][j - 1] \<ge> dp[i - 1][j]\<close>, the loop pushes an insert segment and decrements
  the index of the rewritten side; a tie goes to insertion, not to deletion.
\<close>

theorem backtrace_prefers_insert:
  assumes "0 < i" and "0 < j" and "a ! (i - 1) \<noteq> b ! (j - 1)"
    and "dp ! i ! (j - 1) \<ge> dp ! (i - 1) ! j"
  shows "backtrace a b dp i j diff =
           backtrace a b dp i (j - 1) (diff @ [\<lparr>seg_type = Insert, seg_text = b ! (j - 1)\<rparr>])"
  using assms by (subst backtrace.simps) simp

theorem backtrace_prefers_insert_witness:
  "backtrace [js ''x''] [js ''y''] (lcsTable [js ''x''] [js ''y'']) 1 1 [] =
     backtrace [js ''x''] [js ''y''] (lcsTable [js ''x''] [js ''y'']) 1 0
       [\<lparr>seg_type = Insert, seg_text = js ''y''\<rparr>]"
proof -
  have ne: "[js ''x''] ! (1 - 1) \<noteq> [js ''y''] ! (1 - 1)"
    by (simp add: js_def)
  have tie: "lcsTable [js ''x''] [js ''y''] ! 1 ! (1 - 1) \<ge> lcsTable [js ''x''] [js ''y''] ! (1 - 1) ! 1"
    by code_simp
  show ?thesis
    using backtrace_prefers_insert [of 1 1 "[js ''x'']" "[js ''y'']" "lcsTable [js ''x''] [js ''y'']" "[]", OF _ _ ne tie]
    by simp
qed

section \<open>Stripping protected blocks\<close>

lemma fence_re_unfold: "fence_re = Seq (Lit (0x60 # [0x60, 0x60])) (Seq (LazyStar any_cls) (Lit [0x60, 0x60, 0x60]))"
  by (simp add: fence_re_def js_def)

lemma block_re_unfold: "\<exists>r. block_re = Seq (Lit (0x3C # [])) r"
  by (simp add: block_re_def js_def)

lemma fence_pass_plain:
  "0x60 \<notin> set t \<Longrightarrow> replace_g t fence_re False f st = (t, st)"
  unfolding fence_re_unfold by (rule replace_g_skip_all [OF caseless_backtick])

lemma block_pass_plain:
  assumes "0x3C \<notin> set t"
  shows "replace_g t block_re True f st = (t, st)"
proof -
  from block_re_unfold obtain r where r: "block_re = Seq (Lit (0x3C # [])) r" by blast
  show ?thesis unfolding r by (rule replace_g_skip_all [OF caseless_lt assms])
qed

lemma bracket_pass_own:
  assumes "list_all own_or_kept (scan bracket_re True None t)"
  shows "replace_g t bracket_re True protect_bracket bs = (t, bs)"
proof -
  have "replace_pieces protect_bracket (scan bracket_re True None t) bs =
      (concat (map piece_text (scan bracket_re True None t)), bs)"
  proof (rule replace_pieces_unchanged)
    fix mt c
    assume "Hit mt c \<in> set (scan bracket_re True None t)"
    with assms have "own_or_kept (Hit mt c)" by (auto simp: list_all_iff)
    then show "protect_bracket mt c bs = (mt, bs)" by (simp add: protect_bracket_def)
  qed
  then show ?thesis by (simp add: replace_g_def scan_concat)
qed

text \<open>
  Claim C2, amended. For every text without protectable markup and without a
  placeholder-shaped token \<^verbatim>\<open>[PROTECTED_<digits>]\<close>, \<open>stripProtectedBlocks\<close> returns the text
  unchanged with an empty block list, and \<open>restoreProtectedBlocks\<close> applied to that result
  returns the text.
\<close>

theorem strip_restore_plain_text:
  assumes "no_protectable_markup t" and "no_placeholder_token t"
  shows "stripProtectedBlocks t = \<lparr>stripped = t, blocks = []\<rparr> \<and>
         restoreProtectedBlocks (stripped (stripProtectedBlocks t)) (blocks (stripProtectedBlocks t)) = t"
proof -
  from assms(1) have s: "stripProtectedBlocks t = \<lparr>stripped = t, blocks = []\<rparr>"
    by (simp add: stripProtectedBlocks_def no_protectable_markup_def replace_g_no_match
        bracket_pass_own)
  from assms(2) have "restoreProtectedBlocks t [] = t"
    by (simp add: restoreProtectedBlocks_def replace_placeholders_def no_placeholder_token_def
        replace_g_no_match)
  with s show ?thesis by simp
qed

theorem strip_restore_plain_text_witness:
  "stripProtectedBlocks (js ''Hi <b>you</b> [x] `y`'') =
     \<lparr>stripped = js ''Hi <b>you</b> [x] `y`'', blocks = []\<rparr> \<and>
   restoreProtectedBlocks (stripped (stripProtectedBlocks (js ''Hi <b>you</b> [x] `y`'')))
     (blocks (stripProtectedBlocks (js ''Hi <b>you</b> [x] `y`''))) = js ''Hi <b>you</b> [x] `y`''"
proof -
  have 1: "no_protectable_markup (js ''Hi <b>you</b> [x] `y`'')" by code_simp
  have 2: "no_placeholder_token (js ''Hi <b>you</b> [x] `y`'')" by code_simp
  show ?thesis using strip_restore_plain_text [OF 1 2] .
qed

text \<open>
  Claim C2 as stated fails: the text \<^verbatim>\<open>[PROTECTED_0]\<close> has no protectable markup, is
  returned unchanged with no blocks, and is restored to the empty string.
\<close>

theorem strip_restore_counterexample:
  "no_protectable_markup (js ''[PROTECTED_0]'') \<and>
   restoreProtectedBlocks (stripped (stripProtectedBlocks (js ''[PROTECTED_0]'')))
     (blocks (stripProtectedBlocks (js ''[PROTECTED_0]''))) \<noteq> js ''[PROTECTED_0]''"
  by code_simp

text \<open>
  Claim C3, amended. The third pass never strips a block whose tag name is \<^verbatim>\<open>CHANGELOG\<close> or
  begins with \<^verbatim>\<open>PROTECTED\<close>, in any letter case: such a match is left in place in the
  output and the block list passes it by unchanged.
\<close>

theorem bracket_pass_keeps_own_tags:
  assumes "scan bracket_re True None t = ps1 @ Hit mt c # ps2"
    and "toUpperCase (capture c 1) = js ''CHANGELOG'' \<or>
         startsWith (toUpperCase (capture c 1)) (js ''PROTECTED'')"
    and "replace_pieces protect_bracket ps1 bs = (out1, bs1)"
    and "replace_pieces protect_bracket ps2 bs1 = (out2, bs2)"
  shows "replace_g t bracket_re True protect_bracket bs = (out1 @ mt @ out2, bs2)"
  using assms
  by (simp add: replace_g_def replace_pieces_append protect_bracket_def is_own_tag_def)

theorem bracket_pass_keeps_own_tags_witness:
  "replace_g (js ''a[changelog]x[/CHANGELOG]b'') bracket_re True protect_bracket [] =
     (js ''a'' @ js ''[changelog]x[/CHANGELOG]'' @ js ''b'', [])"
proof -
  have 1: "scan bracket_re True None (js ''a[changelog]x[/CHANGELOG]b'') =
      [Keep (ch CHR ''a'')] @ Hit (js ''[changelog]x[/CHANGELOG]'') [(1, js ''changelog'')] #
      [Keep (ch CHR ''b'')]"
    by code_simp
  have 2: "toUpperCase (capture [(1, js ''changelog'')] 1) = js ''CHANGELOG'' \<or>
           startsWith (toUpperCase (capture [(1, js ''changelog'')] 1)) (js ''PROTECTED'')"
    by code_simp
  have 3: "replace_pieces protect_bracket [Keep (ch CHR ''a'')] [] = (js ''a'', [])"
    by code_simp
  have 4: "replace_pieces protect_bracket [Keep (ch CHR ''b'')] [] = (js ''b'', [])"
    by code_simp
  show ?thesis using bracket_pass_keeps_own_tags [OF 1 2 3 4] .
qed

text \<open>
  Claim C3 as stated fails for the tag name \<^verbatim>\<open>REFINED\<close>: such a block is stripped.
\<close>

theorem bracket_pass_strips_refined_counterexample:
  "stripProtectedBlocks (js ''[REFINED]x[/REFINED]'') =
     \<lparr>stripped = js ''[PROTECTED_0]'', blocks = [js ''[REFINED]x[/REFINED]'']\<rparr>"
  by code_simp

lemma bracket_re_unfold:
  "bracket_re =
     Seq (Lit [0x5B])
       (Seq (Grp 1 (Plus (Cls False [Rng (ch CHR ''A'') (ch CHR ''Z''), Ch (ch CHR ''_'')])))
          (Seq (Lit [0x5D])
             (Seq (LazyStar any_cls)
                (Seq (Lit [0x5B, 0x2F]) (Seq (Back 1) (Lit [0x5D]))))))"
  by (simp add: bracket_re_def js_def)

lemma bracket_match_at:
  assumes tag: "tag \<noteq> []" "list_all is_tag_char tag"
    and tag': "list_all2 (ceq True) tag tag'"
    and body: "0x5B \<notin> set body"
  shows "match_at bracket_re True prev
           ([0x5B] @ tag @ [0x5D] @ body @ [0x5B, 0x2F] @ tag' @ [0x5D] @ post) =
         Some ([0x5B] @ tag @ [0x5D] @ body @ [0x5B, 0x2F] @ tag' @ [0x5D], (Some 0x5D, post),
               [(1, tag)])"
proof -
  define T where "T = Cls False [Rng (ch CHR ''A'') (ch CHR ''Z''), Ch (ch CHR ''_'')]"
  define K :: "pos \<Rightarrow> caps \<Rightarrow> mstate option" where "K = (\<lambda>p c. Some (p, c))"
  define Y where "Y = Seq (Lit [0x5B, 0x2F]) (Seq (Back 1) (Lit [0x5D]))"
  define zs where "zs = [0x5B, 0x2F] @ tag' @ [0x5D] @ post"
  define res :: mstate where "res = ((Some 0x5D, post), [(1, tag)])"
  from tag' have len: "length tag' = length tag" by (simp add: list_all2_lengthD)
  have bref: "m (Seq (Back 1) (Lit [0x5D])) True (q, tag' @ [0x5D] @ post) [(1, tag)] K = Some res" for q
    using tag' advance_append [of q tag' "[0x5D] @ post"] len
    by (simp add: lit_at_append ceq_refl K_def res_def)
  have mY: "m Y True (q, zs) [(1, tag)] K = Some res" for q
    unfolding Y_def zs_def by (simp only: m_Seq_Lit_self bref)
  have mY_fail: "m Y True (q, drop i body @ zs) [(1, tag)] K = None" if "i < length body" for i q
  proof -
    from that have d: "drop i body = body ! i # drop (Suc i) body"
      by (simp add: Cons_nth_drop_Suc)
    from that body have "body ! i \<noteq> 0x5B" by (metis nth_mem)
    with lit_at_caseless [OF caseless_lbracket, of True "[0x2F]" "body ! i" "drop (Suc i) body @ zs"]
    have "\<not> lit_at True [0x5B, 0x2F] (drop i body @ zs)" by (auto simp: d)
    then show ?thesis by (simp add: Y_def)
  qed
  have lazy: "star_l (cls_mem True any_cls) (Some 0x5D) (body @ zs) (\<lambda>p'. m Y True p' [(1, tag)] K) = Some res"
  proof (rule star_l_first)
    show "list_all (cls_mem True any_cls) body" by (simp add: list_all_iff cls_mem_any)
  next
    fix i
    assume "i < length body"
    then show "m Y True (prev_after (Some 0x5D) (take i body), drop i body @ zs) [(1, tag)] K = None"
      by (rule mY_fail)
  next
    show "m Y True (prev_after (Some 0x5D) body, zs) [(1, tag)] K = Some res" by (rule mY)
  qed
  have mR: "m (Seq (Lit [0x5D]) (Seq (LazyStar any_cls) Y)) True (q, [0x5D] @ body @ zs) [(1, tag)] K
      = Some res" for q
  proof -
    have "m (Seq (LazyStar any_cls) Y) True (Some 0x5D, body @ zs) [(1, tag)] K = Some res"
      using lazy by simp
    moreover have "prev_after q [0x5D] = Some 0x5D" by simp
    ultimately show ?thesis by (simp only: m_Seq_Lit_self)
  qed
  from tag obtain t ts where t: "tag = t # ts" "is_tag_char t" "list_all is_tag_char ts"
    by (cases tag) auto
  define k' :: "pos \<Rightarrow> mstate option" where
    "k' = (\<lambda>p'. m (Seq (Lit [0x5D]) (Seq (LazyStar any_cls) Y)) True p'
              [(1, take (length (t # ts @ [0x5D] @ body @ zs) - length (snd p'))
                     (t # ts @ [0x5D] @ body @ zs))] K)"
  have tk: "take (length (t # ts @ [0x5D] @ body @ zs) - length ([0x5D] @ body @ zs))
      (t # ts @ [0x5D] @ body @ zs) = tag"
    by (simp add: t(1))
  have k': "k' (prev_after (Some t) ts, [0x5D] @ body @ zs) = Some res"
    unfolding k'_def snd_conv tk by (rule mR)
  have Tmem: "cls_mem True T = is_tag_char"
    unfolding T_def by (rule ext) (rule tag_cls_mem)
  have sg: "star_g (cls_mem True T) (Some t) (ts @ [0x5D] @ body @ zs) k' = Some res"
  proof (rule star_g_max)
    show "list_all (cls_mem True T) ts" using t(3) by (simp only: Tmem)
  next
    show "[0x5D] @ body @ zs = [] \<or> \<not> cls_mem True T (hd ([0x5D] @ body @ zs))"
      by (simp add: Tmem not_tag_char_rbracket)
  next
    show "k' (prev_after (Some t) ts, [0x5D] @ body @ zs) = Some res" by (rule k')
  qed
  have grp: "m (Seq (Grp 1 (Plus T)) (Seq (Lit [0x5D]) (Seq (LazyStar any_cls) Y))) True
      (q, tag @ [0x5D] @ body @ zs) [] K = Some res" for q
  proof -
    have "m (Seq (Grp 1 (Plus T)) (Seq (Lit [0x5D]) (Seq (LazyStar any_cls) Y))) True
        (q, tag @ [0x5D] @ body @ zs) [] K =
        star_g (cls_mem True T) (Some t) (ts @ [0x5D] @ body @ zs) k'"
      using t(2) unfolding k'_def t(1)
      by (simp add: Tmem del: m.simps(1) m.simps(6))
    with sg show ?thesis by simp
  qed
  have "m bracket_re True (prev, [0x5B] @ tag @ [0x5D] @ body @ zs) [] K = Some res"
    unfolding bracket_re_unfold T_def [symmetric] Y_def [symmetric]
    by (simp only: m_Seq_Lit_self grp)
  then show ?thesis
    using match_at_from_m [of bracket_re True prev
        "[0x5B] @ tag @ [0x5D] @ body @ [0x5B, 0x2F] @ tag' @ [0x5D]" post "Some 0x5D" "[(1, tag)]"]
    by (simp add: K_def res_def zs_def)
qed

lemma closing_tag_not_special:
  assumes "list_all is_tag_char tag" and "list_all2 (ceq True) tag tag'" and "caseless s"
    and "\<not> is_tag_char s"
  shows "s \<notin> set tag'"
proof
  assume "s \<in> set tag'"
  then obtain i where i: "i < length tag'" "tag' ! i = s" by (auto simp: in_set_conv_nth)
  with assms(2) have "ceq True (tag ! i) s" and "i < length tag"
    by (auto simp: list_all2_conv_all_nth)
  with assms(3) have "tag ! i = s" by (simp add: ceq_caseless_right)
  with assms(1) \<open>i < length tag\<close> have "is_tag_char s" by (auto simp: list_all_length)
  with assms(4) show False by simp
qed

lemma scan_bracket_block:
  assumes tag: "tag \<noteq> []" "list_all is_tag_char tag"
    and tag': "list_all2 (ceq True) tag tag'"
    and plain: "0x5B \<notin> set pre" "0x5B \<notin> set body" "0x5B \<notin> set post"
  shows "scan bracket_re True None
           (pre @ [0x5B] @ tag @ [0x5D] @ body @ [0x5B, 0x2F] @ tag' @ [0x5D] @ post) =
         map Keep pre @ Hit ([0x5B] @ tag @ [0x5D] @ body @ [0x5B, 0x2F] @ tag' @ [0x5D]) [(1, tag)] #
         map Keep post"
proof -
  define R where "R = Seq (Grp 1 (Plus (Cls False [Rng (ch CHR ''A'') (ch CHR ''Z''), Ch (ch CHR ''_'')])))
          (Seq (Lit [0x5D])
             (Seq (LazyStar any_cls)
                (Seq (Lit [0x5B, 0x2F]) (Seq (Back 1) (Lit [0x5D])))))"
  have re: "bracket_re = Seq (Lit (0x5B # [])) R"
    by (simp add: bracket_re_unfold R_def)
  define blk where "blk = [0x5B] @ tag @ [0x5D] @ body @ [0x5B, 0x2F] @ tag' @ [0x5D]"
  define q where "q = prev_after None pre"
  have 1: "scan bracket_re True None (pre @ 0x5B # (tag @ [0x5D] @ body @ [0x5B, 0x2F] @ tag' @ [0x5D] @ post)) =
      map Keep pre @ scan bracket_re True q (0x5B # (tag @ [0x5D] @ body @ [0x5B, 0x2F] @ tag' @ [0x5D] @ post))"
    unfolding re q_def by (rule scan_skip [OF caseless_lbracket plain(1)])
  have m: "match_at bracket_re True q (blk @ post) = Some (blk, (Some 0x5D, post), [(1, tag)])"
    using bracket_match_at [OF tag tag' plain(2), of q post] by (simp add: blk_def)
  have "length post < length (blk @ post)" by (simp add: blk_def)
  from scan_Some [OF m this] have 2: "scan bracket_re True q (blk @ post) =
      Hit blk [(1, tag)] # scan bracket_re True (Some 0x5D) post" .
  have 3: "scan bracket_re True (Some 0x5D) post = map Keep post"
    unfolding re by (rule scan_skip_all [OF caseless_lbracket plain(3)])
  from 1 2 3 show ?thesis by (simp add: blk_def)
qed

text \<open>
  Claim C9, amended. The third pass matches a bracket block whose tag name is made of ASCII
  letters of either case and underscores, the closing tag compared without regard to case.
  For every text whose only bracket block has such a tag name, other than \<^verbatim>\<open>changelog\<close> and
  the names beginning with \<^verbatim>\<open>protected\<close>, and which has no other left bracket, no \<^verbatim>\<open><\<close> and
  no backtick, \<open>stripProtectedBlocks\<close> replaces the block by \<^verbatim>\<open>[PROTECTED_0]\<close> and returns it as
  the only stored block.
\<close>

theorem strip_tag_of_any_case:
  assumes "tag \<noteq> []" and "list_all is_tag_char tag" and "list_all2 (ceq True) tag tag'"
    and "\<not> is_own_tag tag"
    and "\<forall>c \<in> set (pre @ body @ post). c \<noteq> 0x5B \<and> c \<noteq> 0x3C \<and> c \<noteq> 0x60"
  shows "stripProtectedBlocks
           (pre @ js ''['' @ tag @ js '']'' @ body @ js ''[/'' @ tag' @ js '']'' @ post) =
         \<lparr>stripped = pre @ placeholder 0 @ post,
          blocks = [js ''['' @ tag @ js '']'' @ body @ js ''[/'' @ tag' @ js '']'']\<rparr>"
proof -
  define blk where "blk = [0x5B] @ tag @ [0x5D] @ body @ [0x5B, 0x2F] @ tag' @ [0x5D]"
  define t where "t = pre @ blk @ post"
  have lits: "js ''['' = [0x5B]" "js '']'' = [0x5D]" "js ''[/'' = [0x5B, 0x2F]"
    by (simp_all add: js_def)
  have tagc: "0x3C \<notin> set tag" "0x60 \<notin> set tag"
    using assms(2) tag_char_not_special by (auto simp: list_all_iff)
  have tagc': "0x3C \<notin> set tag'" "0x60 \<notin> set tag'"
    using closing_tag_not_special [OF assms(2,3) caseless_lt]
      closing_tag_not_special [OF assms(2,3) caseless_backtick]
    by (simp_all add: is_tag_char_def is_upper_def is_lower_def)
  have plain: "0x60 \<notin> set t" "0x3C \<notin> set t"
    using assms(5) tagc tagc' by (auto simp: t_def blk_def)
  have br: "0x5B \<notin> set pre" "0x5B \<notin> set body" "0x5B \<notin> set post"
    using assms(5) by auto
  have sc: "scan bracket_re True None t =
      map Keep pre @ Hit blk [(1, tag)] # map Keep post"
    using scan_bracket_block [OF assms(1,2,3) br] by (simp add: t_def blk_def)
  have cb: "protect_bracket blk [(1, tag)] [] = (placeholder 0, [blk])"
    using assms(4) by (simp add: protect_bracket_def capture_def protect_def)
  have "replace_g t bracket_re True protect_bracket [] = (pre @ placeholder 0 @ post, [blk])"
    by (simp add: replace_g_def sc replace_pieces_append replace_pieces_Keep
        cb [unfolded One_nat_def])
  then have "stripProtectedBlocks t = \<lparr>stripped = pre @ placeholder 0 @ post, blocks = [blk]\<rparr>"
    by (simp add: stripProtectedBlocks_def fence_pass_plain [OF plain(1)]
        block_pass_plain [OF plain(2)])
  then show ?thesis by (simp add: t_def blk_def lits)
qed

theorem strip_tag_of_any_case_witness:
  "stripProtectedBlocks (js ''a [note]hi[/NOTE] b'') =
     \<lparr>stripped = js ''a [PROTECTED_0] b'', blocks = [js ''[note]hi[/NOTE]'']\<rparr>"
proof -
  have 1: "js ''note'' \<noteq> []" by (simp add: js_def)
  have 2: "list_all is_tag_char (js ''note'')" by code_simp
  have 3: "list_all2 (ceq True) (js ''note'') (js ''NOTE'')" by code_simp
  have 4: "\<not> is_own_tag (js ''note'')" by code_simp
  have 5: "\<forall>c \<in> set (js ''a '' @ js ''hi'' @ js '' b''). c \<noteq> 0x5B \<and> c \<noteq> 0x3C \<and> c \<noteq> 0x60"
    by (simp add: js_def)
  have 6: "js ''a '' @ js ''['' @ js ''note'' @ js '']'' @ js ''hi'' @ js ''[/'' @ js ''NOTE'' @
      js '']'' @ js '' b'' = js ''a [note]hi[/NOTE] b''"
    by (simp add: js_def)
  have 7: "js ''a '' @ placeholder 0 @ js '' b'' = js ''a [PROTECTED_0] b''"
    by code_simp
  have 8: "js ''['' @ js ''note'' @ js '']'' @ js ''hi'' @ js ''[/'' @ js ''NOTE'' @ js '']'' =
      js ''[note]hi[/NOTE]''"
    by (simp add: js_def)
  show ?thesis
    using strip_tag_of_any_case [OF 1 2 3 4 5] by (simp only: 6 7 8)
qed

text \<open>
  Claim C9 as stated fails: the pattern of the third pass carries the \<^verbatim>\<open>i\<close> flag, and a
  block with a lower-case tag name is replaced and stored like any other.
\<close>

theorem strip_lower_case_tag_counterexample:
  "stripProtectedBlocks (js ''a [note]hi[/note] b'') =
     \<lparr>stripped = js ''a [PROTECTED_0] b'', blocks = [js ''[note]hi[/note]'']\<rparr>"
  by code_simp

section \<open>Restoring protected blocks\<close>

lemma js_rbracket: "js '']'' = [0x5D]"
  by (simp add: js_def)

lemma js_protected: "js ''[PROTECTED_'' = 0x5B # js ''PROTECTED_''"
  by (simp add: js_def)

lemma lbracket_notin_protected: "(0x5B :: cu) \<notin> set (js ''PROTECTED_'')"
  by (simp add: js_def)

lemma placeholder_match_at:
  assumes "ds \<noteq> []" and "list_all is_digit ds"
  shows "match_at placeholder_re False prev (js ''[PROTECTED_'' @ ds @ js '']'' @ post) =
           Some (js ''[PROTECTED_'' @ ds @ js '']'', (Some 0x5D, post), [(1, ds)])"
proof -
  define L where "L = js ''[PROTECTED_''"
  from assms obtain d ds' where ds: "ds = d # ds'" and d: "is_digit d" and ds': "list_all is_digit ds'"
    by (cases ds) auto
  define k :: "pos \<Rightarrow> caps \<Rightarrow> mstate option" where "k = (\<lambda>p c. Some (p, c))"
  define k2 :: "pos \<Rightarrow> mstate option" where
    "k2 = (\<lambda>p'. m (Lit [0x5D]) False p'
              [(1, take (length (d # ds' @ 0x5D # post) - length (snd p')) (d # ds' @ 0x5D # post))] k)"
  have k2: "k2 (prev_after (Some d) ds', 0x5D # post) = Some ((Some 0x5D, post), [(1, d # ds')])"
    using m_Lit_append [of "[0x5D]" "[0x5D]" False "prev_after (Some d) ds'" post]
    by (simp add: k2_def k_def ceq_def)
  have "star_g is_digit (Some d) (ds' @ 0x5D # post) k2 = Some ((Some 0x5D, post), [(1, d # ds')])"
    using star_g_max [where P = is_digit and ys = ds' and zs = "0x5D # post" and k = k2
        and prev = "Some d"] ds' k2
    by (simp add: not_digit_rbracket)
  then have 1: "m (Seq (Grp 1 (Plus digit_cls)) (Lit [0x5D])) False (prev_after prev L, d # ds' @ 0x5D # post) [] k =
      Some ((Some 0x5D, post), [(1, d # ds')])"
    using d by (simp add: cls_mem_digit k2_def)
  have "m placeholder_re False (prev, L @ ds @ [0x5D] @ post) [] k =
      m (Seq (Grp 1 (Plus digit_cls)) (Lit [0x5D])) False (prev_after prev L, ds @ [0x5D] @ post) [] k"
    unfolding placeholder_re_def seqs.simps js_rbracket L_def by (rule m_Seq_Lit_self)
  with 1 have "m placeholder_re False (prev, L @ ds @ [0x5D] @ post) [] k =
      Some ((Some 0x5D, post), [(1, ds)])"
    by (simp add: ds)
  then show ?thesis
    by (simp add: match_at_def k_def L_def js_rbracket)
qed

lemma placeholder_match_sound:
  assumes "match_at placeholder_re False prev rest = Some res"
  shows "\<exists>ds post. ds \<noteq> [] \<and> list_all is_digit ds \<and> rest = js ''[PROTECTED_'' @ ds @ js '']'' @ post"
proof -
  define L where "L = js ''[PROTECTED_''"
  define k :: "pos \<Rightarrow> caps \<Rightarrow> mstate option" where "k = (\<lambda>p c. Some (p, c))"
  from assms obtain q where q: "m placeholder_re False (prev, rest) [] k = Some q"
    by (auto simp: match_at_def k_def split: option.splits)
  then have "m (Seq (Lit L) (Seq (Grp 1 (Plus digit_cls)) (Lit [0x5D]))) False (prev, rest) [] k = Some q"
    by (simp only: placeholder_re_def seqs.simps js_rbracket L_def)
  from m_Seq_Lit_Some [OF this] have lit: "lit_at False L rest"
    and q2: "m (Seq (Grp 1 (Plus digit_cls)) (Lit [0x5D])) False (advance (prev, rest) (length L)) [] k = Some q"
    by simp_all
  from lit obtain R where rest: "rest = L @ R" by (auto simp: lit_at_exact prefix_def)
  with q2 have q3: "m (Seq (Grp 1 (Plus digit_cls)) (Lit [0x5D])) False (prev_after prev L, R) [] k = Some q"
    by (simp add: advance_append)
  then obtain x xs where R: "R = x # xs" and x: "is_digit x"
    and st: "star_g is_digit (Some x) xs
          (\<lambda>p'. m (Lit [0x5D]) False p' [(1, take (length (x # xs) - length (snd p')) (x # xs))] k) = Some q"
    by (cases R) (auto simp: cls_mem_digit split: if_splits)
  from star_g_sound [OF st] obtain ys zs where xs: "xs = ys @ zs" and ys: "list_all is_digit ys"
    and "lit_at False [0x5D] zs"
    by (auto split: if_splits)
  then obtain post where zs: "zs = 0x5D # post" by (auto simp: lit_at_exact prefix_def)
  have "x # ys \<noteq> [] \<and> list_all is_digit (x # ys) \<and> rest = L @ (x # ys) @ js '']'' @ post"
    using rest R xs zs x ys by (simp add: js_rbracket)
  then show ?thesis unfolding L_def by blast
qed

lemma placeholder_match_prev:
  "match_at placeholder_re False prev rest = match_at placeholder_re False prev' rest"
proof (cases "match_at placeholder_re False prev rest")
  case None
  show ?thesis
  proof (cases "match_at placeholder_re False prev' rest")
    case (Some res)
    from placeholder_match_sound [OF this] obtain ds post where
      "ds \<noteq> []" "list_all is_digit ds" "rest = js ''[PROTECTED_'' @ ds @ js '']'' @ post"
      by blast
    with placeholder_match_at [of ds prev post] None show ?thesis by simp
  qed (simp add: None)
next
  case (Some res)
  from placeholder_match_sound [OF this] obtain ds post where
    "ds \<noteq> []" "list_all is_digit ds" "rest = js ''[PROTECTED_'' @ ds @ js '']'' @ post"
    by blast
  then show ?thesis by (simp add: placeholder_match_at)
qed

lemma scan_placeholder_prev:
  "scan placeholder_re False prev rest = scan placeholder_re False prev' rest"
proof (induction rest arbitrary: prev prev' rule: length_induct)
  case (1 rest)
  show ?case
  proof (cases "match_at placeholder_re False prev rest")
    case None
    then have None': "match_at placeholder_re False prev' rest = None"
      using placeholder_match_prev [of prev rest prev'] by simp
    show ?thesis
    proof (cases rest)
      case Nil
      with None None' show ?thesis by (simp add: scan_Nil_None)
    next
      case (Cons x xs)
      with None None' show ?thesis by (simp add: scan_Cons_None)
    qed
  next
    case (Some res)
    from placeholder_match_sound [OF this] obtain ds post where
      ds: "ds \<noteq> []" "list_all is_digit ds" and rest: "rest = js ''[PROTECTED_'' @ ds @ js '']'' @ post"
      by blast
    have "length post < length rest" by (simp add: rest js_rbracket)
    then show ?thesis
      using scan_Some [OF placeholder_match_at [OF ds, of prev post], folded rest]
        scan_Some [OF placeholder_match_at [OF ds, of prev' post], folded rest]
      by simp
  qed
qed

lemma token_tail_no_lbracket:
  assumes "list_all is_digit ds"
  shows "(0x5B :: cu) \<notin> set (js ''PROTECTED_'' @ ds @ js '']'')"
proof -
  have "(0x5B :: cu) \<notin> set ds"
    using assms not_digit_lbracket by (auto simp: list_all_iff)
  then show ?thesis using lbracket_notin_protected by (simp add: js_rbracket)
qed

text \<open>An attempt that starts before a later left bracket does not see beyond it.\<close>

lemma placeholder_match_local:
  assumes "pre \<noteq> []"
  shows "match_at placeholder_re False prev (pre @ 0x5B # z) =
           (case match_at placeholder_re False prev pre of
              None \<Rightarrow> None
            | Some (mt, (q, rest'), c) \<Rightarrow> Some (mt, (q, rest' @ 0x5B # z), c))"
proof (cases "match_at placeholder_re False prev pre")
  case (Some res)
  from placeholder_match_sound [OF this] obtain ds post where
    ds: "ds \<noteq> []" "list_all is_digit ds" and pre: "pre = js ''[PROTECTED_'' @ ds @ js '']'' @ post"
    by blast
  show ?thesis
    using placeholder_match_at [OF ds, of prev post]
      placeholder_match_at [OF ds, of prev "post @ 0x5B # z"]
    by (simp add: pre)
next
  case None
  have "match_at placeholder_re False prev (pre @ 0x5B # z) = None"
  proof (rule ccontr)
    assume "match_at placeholder_re False prev (pre @ 0x5B # z) \<noteq> None"
    then obtain res where "match_at placeholder_re False prev (pre @ 0x5B # z) = Some res" by auto
    from placeholder_match_sound [OF this] obtain ds post where
      ds: "ds \<noteq> []" "list_all is_digit ds"
      and eq: "pre @ 0x5B # z = js ''[PROTECTED_'' @ ds @ js '']'' @ post"
      by blast
    define T where "T = js ''PROTECTED_'' @ ds @ js '']''"
    from assms obtain x pre' where pre: "pre = x # pre'" by (cases pre) auto
    from eq have eq': "pre' @ 0x5B # z = T @ post"
      by (simp add: pre js_protected T_def)
    have notin: "(0x5B :: cu) \<notin> set T"
      unfolding T_def by (rule token_tail_no_lbracket [OF ds(2)])
    from eq' obtain us where "pre' = T @ us \<and> us @ 0x5B # z = post \<or>
        pre' @ us = T \<and> 0x5B # z = us @ post"
      by (auto simp: append_eq_append_conv2)
    then have "\<exists>us. pre' = T @ us"
    proof
      assume "pre' = T @ us \<and> us @ 0x5B # z = post"
      then show ?thesis by blast
    next
      assume a: "pre' @ us = T \<and> 0x5B # z = us @ post"
      show ?thesis
      proof (cases us)
        case Nil
        with a show ?thesis by simp
      next
        case (Cons u us')
        with a have "0x5B \<in> set T" by auto
        with notin show ?thesis by simp
      qed
    qed
    then obtain us where "pre' = T @ us" by blast
    with eq pre have "pre = js ''[PROTECTED_'' @ ds @ js '']'' @ us"
      by (simp add: js_protected T_def)
    with placeholder_match_at [OF ds, of prev us] None show False by simp
  qed
  with None show ?thesis by simp
qed

lemma scan_placeholder_Nil: "scan placeholder_re False prev [] = []"
proof (cases "match_at placeholder_re False prev []")
  case None
  then show ?thesis by (rule scan_Nil_None)
next
  case (Some res)
  from placeholder_match_sound [OF this] show ?thesis by (simp add: js_protected)
qed

lemma scan_placeholder_token:
  assumes ds: "ds \<noteq> []" "list_all is_digit ds"
  shows "scan placeholder_re False prev (pre @ js ''[PROTECTED_'' @ ds @ js '']'' @ post) =
           scan placeholder_re False prev pre @
           Hit (js ''[PROTECTED_'' @ ds @ js '']'') [(1, ds)] # scan placeholder_re False None post"
proof (induction pre arbitrary: prev rule: length_induct)
  case (1 pre)
  define tok where "tok = js ''[PROTECTED_'' @ ds @ js '']''"
  have tok: "tok = 0x5B # js ''PROTECTED_'' @ ds @ js '']''" by (simp add: tok_def js_protected)
  show ?case
  proof (cases pre)
    case Nil
    have "length post < length (js ''[PROTECTED_'' @ ds @ js '']'' @ post)"
      by (simp add: js_rbracket)
    from scan_Some [OF placeholder_match_at [OF ds, of prev post] this]
    show ?thesis
      using scan_placeholder_prev [of "Some 0x5D" post None]
      by (simp add: Nil scan_placeholder_Nil)
  next
    case (Cons x pre')
    then have ne: "pre \<noteq> []" by simp
    have whole: "pre @ js ''[PROTECTED_'' @ ds @ js '']'' @ post =
        pre @ 0x5B # (js ''PROTECTED_'' @ ds @ js '']'' @ post)"
      by (simp add: js_protected)
    note loc = placeholder_match_local [OF ne, of prev "js ''PROTECTED_'' @ ds @ js '']'' @ post",
        folded whole]
    show ?thesis
    proof (cases "match_at placeholder_re False prev pre")
      case None
      with loc have "match_at placeholder_re False prev
          (x # pre' @ js ''[PROTECTED_'' @ ds @ js '']'' @ post) = None"
        by (simp add: Cons)
      from scan_Cons_None [OF this] scan_Cons_None [OF None [unfolded Cons]]
      show ?thesis
        using "1.IH" [rule_format, of pre' "Some x"] by (simp add: Cons)
    next
      case (Some res)
      obtain mt q rest' c where res: "res = (mt, (q, rest'), c)" by (cases res) auto
      from placeholder_match_sound [OF Some] obtain ds' post' where
        ds': "ds' \<noteq> []" "list_all is_digit ds'"
        and pre: "pre = js ''[PROTECTED_'' @ ds' @ js '']'' @ post'"
        by blast
      from Some res placeholder_match_at [OF ds', of prev post'] pre
      have rest': "rest' = post'" by simp
      then have short: "length rest' < length pre" by (simp add: pre js_rbracket)
      from loc Some res have "match_at placeholder_re False prev
          (pre @ js ''[PROTECTED_'' @ ds @ js '']'' @ post) =
          Some (mt, (q, rest' @ js ''[PROTECTED_'' @ ds @ js '']'' @ post), c)"
        by (simp add: js_protected)
      from scan_Some [OF this] scan_Some [OF Some [unfolded res] short]
      show ?thesis
        using "1.IH" [rule_format, of rest' q] short by simp
    qed
  qed
qed

lemma replace_placeholders_token:
  assumes "ds \<noteq> []" and "list_all is_digit ds"
  shows "replace_placeholders (pre @ js ''[PROTECTED_'' @ ds @ js '']'' @ post) bs =
           replace_placeholders pre bs @ block_or_empty bs ds @ replace_placeholders post bs"
  by (simp add: replace_placeholders_def replace_g_def scan_placeholder_token [OF assms]
      replace_pieces_append restore_callback_def capture_def split: prod.splits)

lemma safety_net_loop:
  "foldl (append_missing text bs) acc is =
     acc @ concat (map (\<lambda>i. [0x0A] @ bs ! i)
                    (filter (\<lambda>i. \<not> str_includes text (placeholder i)) is))"
  by (induction "is" arbitrary: acc) (simp_all add: append_missing_def)

lemma restore_kept_placeholder:
  assumes "i < length bs" and "str_includes text (placeholder i)"
  shows "sublist (bs ! i) (replace_placeholders text bs)"
proof -
  from assms(2) obtain pre post where
    "text = pre @ js ''[PROTECTED_'' @ decimal i @ js '']'' @ post"
    by (auto simp: str_includes_iff placeholder_def)
  moreover have "block_or_empty bs (decimal i) = bs ! i"
    using assms(1) decimal_digits [of i] by (simp add: block_or_empty_def)
  ultimately have "replace_placeholders text bs =
      replace_placeholders pre bs @ bs ! i @ replace_placeholders post bs"
    using decimal_digits [of i] by (simp add: replace_placeholders_token)
  then show ?thesis by (auto simp: sublist_def)
qed

text \<open>
  Claim C4. The result of \<open>restoreProtectedBlocks\<close> is the text with its placeholders
  replaced, followed by a line feed and the content of each stored block whose placeholder
  \<^verbatim>\<open>[PROTECTED_i]\<close> does not occur in the text, in index order; so the content of every stored
  block occurs in the result.
\<close>

theorem restore_never_loses_a_block:
  "restoreProtectedBlocks text bs =
     replace_placeholders text bs @
     concat (map (\<lambda>i. [0x0A] @ bs ! i)
               (filter (\<lambda>i. \<not> str_includes text (placeholder i)) [0..<length bs])) \<and>
   (\<forall>i < length bs. sublist (bs ! i) (restoreProtectedBlocks text bs))"
proof -
  let ?missing = "filter (\<lambda>i. \<not> str_includes text (placeholder i)) [0..<length bs]"
  have eq: "restoreProtectedBlocks text bs =
      replace_placeholders text bs @ concat (map (\<lambda>i. [0x0A] @ bs ! i) ?missing)"
    by (simp add: restoreProtectedBlocks_def safety_net_loop)
  have "sublist (bs ! i) (restoreProtectedBlocks text bs)" if i: "i < length bs" for i
  proof (cases "str_includes text (placeholder i)")
    case True
    from restore_kept_placeholder [OF i True] obtain ps ss where
      "replace_placeholders text bs = ps @ bs ! i @ ss" by (auto simp: sublist_def)
    then have "restoreProtectedBlocks text bs =
        ps @ bs ! i @ (ss @ concat (map (\<lambda>i. [0x0A] @ bs ! i) ?missing))"
      by (simp add: eq)
    then show ?thesis unfolding sublist_def by blast
  next
    case False
    with i have "i \<in> set ?missing" by simp
    then obtain us vs where "?missing = us @ i # vs" by (meson split_list)
    then have "concat (map (\<lambda>i. [0x0A] @ bs ! i) ?missing) =
        (concat (map (\<lambda>i. [0x0A] @ bs ! i) us) @ [0x0A]) @ bs ! i @
        concat (map (\<lambda>i. [0x0A] @ bs ! i) vs)"
      by simp
    then have "restoreProtectedBlocks text bs =
        (replace_placeholders text bs @ concat (map (\<lambda>i. [0x0A] @ bs ! i) us) @ [0x0A]) @
        bs ! i @ concat (map (\<lambda>i. [0x0A] @ bs ! i) vs)"
      by (simp add: eq)
    then show ?thesis unfolding sublist_def by blast
  qed
  with eq show ?thesis by blast
qed

theorem restore_never_loses_a_block_witness:
  "restoreProtectedBlocks (js ''a [PROTECTED_1] b'') [js ''X'', js ''Y''] =
     js ''a Y b'' @ [0x0A] @ js ''X'' \<and>
   sublist (js ''X'') (restoreProtectedBlocks (js ''a [PROTECTED_1] b'') [js ''X'', js ''Y'']) \<and>
   sublist (js ''Y'') (restoreProtectedBlocks (js ''a [PROTECTED_1] b'') [js ''X'', js ''Y''])"
proof -
  have r: "replace_placeholders (js ''a [PROTECTED_1] b'') [js ''X'', js ''Y''] @
      concat (map (\<lambda>i. [0x0A] @ [js ''X'', js ''Y''] ! i)
        (filter (\<lambda>i. \<not> str_includes (js ''a [PROTECTED_1] b'') (placeholder i))
           [0..<length [js ''X'', js ''Y'']])) = js ''a Y b'' @ [0x0A] @ js ''X''"
    by code_simp
  have a: "\<forall>i < length [js ''X'', js ''Y''].
      sublist ([js ''X'', js ''Y''] ! i)
        (restoreProtectedBlocks (js ''a [PROTECTED_1] b'') [js ''X'', js ''Y''])"
    using restore_never_loses_a_block [of "js ''a [PROTECTED_1] b''" "[js ''X'', js ''Y'']"]
    by blast
  have "sublist ([js ''X'', js ''Y''] ! 0)
      (restoreProtectedBlocks (js ''a [PROTECTED_1] b'') [js ''X'', js ''Y''])"
    using a [rule_format, of 0] by simp
  moreover have "sublist ([js ''X'', js ''Y''] ! 1)
      (restoreProtectedBlocks (js ''a [PROTECTED_1] b'') [js ''X'', js ''Y''])"
    using a [rule_format, of 1] by simp
  ultimately show ?thesis
    using restore_never_loses_a_block [of "js ''a [PROTECTED_1] b''" "[js ''X'', js ''Y'']"] r
    by simp
qed

text \<open>
  Claim C10. An occurrence of a placeholder-shaped token \<^verbatim>\<open>[PROTECTED_<digits>]\<close> whose number
  is not an index of the block list is replaced by the empty string: the replacement of the
  whole text is the replacement of what precedes the token followed by the replacement of what
  follows it, and the safety net runs on that.
\<close>

theorem restore_deletes_unknown_placeholder:
  assumes "ds \<noteq> []" and "list_all is_digit ds" and "length bs \<le> parseInt ds"
  shows "replace_placeholders (pre @ js ''[PROTECTED_'' @ ds @ js '']'' @ post) bs =
           replace_placeholders pre bs @ replace_placeholders post bs \<and>
         restoreProtectedBlocks (pre @ js ''[PROTECTED_'' @ ds @ js '']'' @ post) bs =
           foldl (append_missing (pre @ js ''[PROTECTED_'' @ ds @ js '']'' @ post) bs)
             (replace_placeholders pre bs @ replace_placeholders post bs) [0..<length bs]"
proof -
  from assms(3) have "block_or_empty bs ds = []" by (simp add: block_or_empty_def)
  then have "replace_placeholders (pre @ js ''[PROTECTED_'' @ ds @ js '']'' @ post) bs =
      replace_placeholders pre bs @ replace_placeholders post bs"
    using replace_placeholders_token [OF assms(1,2), of pre post bs] by simp
  then show ?thesis by (simp add: restoreProtectedBlocks_def)
qed

theorem restore_deletes_unknown_placeholder_witness:
  "restoreProtectedBlocks (js ''a[PROTECTED_7]b'') [js ''X''] = js ''ab'' @ [0x0A] @ js ''X''"
proof -
  have 1: "js ''7'' \<noteq> []" by (simp add: js_def)
  have 2: "list_all is_digit (js ''7'')" by (simp add: js_def is_digit_def)
  have 3: "length [js ''X''] \<le> parseInt (js ''7'')" by (simp add: js_def parseInt_def)
  have 4: "foldl (append_missing (js ''a'' @ js ''[PROTECTED_'' @ js ''7'' @ js '']'' @ js ''b'') [js ''X''])
      (replace_placeholders (js ''a'') [js ''X''] @ replace_placeholders (js ''b'') [js ''X''])
      [0..<length [js ''X'']] = js ''ab'' @ [0x0A] @ js ''X''"
    by code_simp
  have 5: "js ''a'' @ js ''[PROTECTED_'' @ js ''7'' @ js '']'' @ js ''b'' = js ''a[PROTECTED_7]b''"
    by (simp add: js_def)
  show ?thesis
    using restore_deletes_unknown_placeholder [OF 1 2 3, of "js ''a''" "js ''b''"] 4
    by (simp only: 5)
qed

section \<open>Properties of the response parser\<close>

lemma tag_match_at:
  assumes cls: "cls = c0 # cs" "caseless c0" "\<not> is_space c0"
    and o': "list_all2 (ceq True) opn o'"
    and cl': "list_all2 (ceq True) cls cl'"
    and first: "\<And>j. j < length inner \<Longrightarrow> \<not> lit_at True cls (drop j inner @ cl' @ post)"
  shows "match_at (tag_re opn cls) True prev (o' @ inner @ cl' @ post) =
           Some (o' @ inner @ cl', (Some (last cl'), post), [(1, trim inner)])"
proof -
  define g where "g = trim inner"
  from trim_decomp [of inner] obtain ws1 ws2 where
    inner: "inner = ws1 @ g @ ws2" and ws1: "list_all is_space ws1" and ws2: "list_all is_space ws2"
    and g_empty: "g = [] \<Longrightarrow> ws2 = []"
    and g_ends: "g \<noteq> [] \<Longrightarrow> \<not> is_space (hd g) \<and> \<not> is_space (last g)"
    unfolding g_def by blast
  define K :: "pos \<Rightarrow> caps \<Rightarrow> mstate option" where "K = (\<lambda>p c. Some (p, c))"
  define X3 where "X3 = Seq (Star space_cls) (Lit cls)"
  define X2 where "X2 = Seq (Grp 1 (LazyStar any_cls)) X3"
  define X1 where "X1 = Seq (Star space_cls) X2"
  define res :: mstate where "res = ((Some (last cl'), post), [(1, g)])"
  from cl' cls(1) obtain d0 ds where d: "cl' = d0 # ds" "ceq True c0 d0"
    by (cases cl') auto
  with cls(2) have d0: "d0 = c0" by (simp add: ceq_caseless)
  have cl'_ne: "cl' \<noteq> []" using d by simp
  have hd_cl: "\<not> is_space (hd (cl' @ post))" using d d0 cls(3) by simp
  have len_cl: "length cl' = length cls" using cl' by (simp add: list_all2_lengthD)
  have mL: "m (Lit cls) True (q, cl' @ post) c K = K (Some (last cl'), post) c" for q c
    using m_Lit_append [of cl' cls True q post c K] len_cl cl' prev_after_nonempty [OF cl'_ne]
    by simp
  have mX3: "m X3 True (q, ws2 @ cl' @ post) [(1, g)] K = Some res" for q
  proof -
    have "star_g (cls_mem True space_cls) q (ws2 @ cl' @ post)
        (\<lambda>p'. m (Lit cls) True p' [(1, g)] K) = Some res"
    proof (rule star_g_max)
      show "list_all (cls_mem True space_cls) ws2" using ws2 by (simp only: cls_mem_space)
    next
      show "cl' @ post = [] \<or> \<not> cls_mem True space_cls (hd (cl' @ post))"
        using hd_cl by (simp only: cls_mem_space) simp
    next
      show "m (Lit cls) True (prev_after q ws2, cl' @ post) [(1, g)] K = Some res"
        by (simp only: mL) (simp add: K_def res_def)
    qed
    then show ?thesis by (simp add: X3_def)
  qed
  have mX3_fail: "m X3 True (q, drop i g @ ws2 @ cl' @ post) c K = None" if i: "i < length g" for i q c
  proof (rule ccontr)
    assume "m X3 True (q, drop i g @ ws2 @ cl' @ post) c K \<noteq> None"
    then obtain r where "star_g (cls_mem True space_cls) q (drop i g @ ws2 @ cl' @ post)
        (\<lambda>p'. m (Lit cls) True p' c K) = Some r"
      by (auto simp: X3_def)
    from star_g_sound [OF this] obtain ys zs where
      split: "drop i g @ ws2 @ cl' @ post = ys @ zs" and ys: "list_all is_space ys"
      and "m (Lit cls) True (prev_after q ys, zs) c K = Some r"
      by (auto simp: cls_mem_space)
    then have lit: "lit_at True cls zs" by (simp split: if_splits)
    from i have gne: "g \<noteq> []" and dne: "drop i g \<noteq> []" by auto
    show False
    proof (cases "length ys < length (drop i g)")
      case True
      from split have "zs = drop (length ys) (drop i g @ ws2 @ cl' @ post)"
        by (metis append_eq_conv_conj)
      with True have zs: "zs = drop (i + length ys) g @ ws2 @ cl' @ post" by (simp add: add.commute)
      define j where "j = length ws1 + (i + length ys)"
      from True have "i + length ys < length g" by simp
      then have "j < length inner" and "drop j inner @ cl' @ post = zs"
        by (simp_all add: j_def inner zs)
      with first [of j] lit show False by simp
    next
      case False
      then have "length (drop i g) \<le> length ys" by simp
      with split have "take (length (drop i g)) ys = drop i g"
        by (metis append_eq_append_conv_if append_eq_conv_conj)
      then have "set (drop i g) \<subseteq> set ys" by (metis set_take_subset)
      moreover have "last g \<in> set (drop i g)" using dne i by (metis last_drop last_in_set)
      ultimately have "is_space (last g)" using ys by (auto simp: list_all_iff)
      with g_ends [OF gne] show False by simp
    qed
  qed
  have mX2: "m X2 True (q, g @ ws2 @ cl' @ post) [] K = Some res" for q
  proof -
    define k2 :: "pos \<Rightarrow> mstate option" where
      "k2 = (\<lambda>p'. m X3 True p'
                [(1, take (length (g @ ws2 @ cl' @ post) - length (snd p')) (g @ ws2 @ cl' @ post))] K)"
    have "star_l (cls_mem True any_cls) q (g @ ws2 @ cl' @ post) k2 = Some res"
    proof (rule star_l_first)
      show "list_all (cls_mem True any_cls) g" by (simp add: list_all_iff cls_mem_any)
    next
      fix i
      assume "i < length g"
      then show "k2 (prev_after q (take i g), drop i g @ ws2 @ cl' @ post) = None"
        unfolding k2_def by (rule mX3_fail)
    next
      have "take (length (g @ ws2 @ cl' @ post) - length (ws2 @ cl' @ post)) (g @ ws2 @ cl' @ post) = g"
        by simp
      then show "k2 (prev_after q g, ws2 @ cl' @ post) = Some res"
        unfolding k2_def snd_conv by (simp only: mX3)
    qed
    then show ?thesis by (simp add: X2_def k2_def)
  qed
  have mX1: "m X1 True (q, inner @ cl' @ post) [] K = Some res" for q
  proof -
    have "star_g (cls_mem True space_cls) q (ws1 @ g @ ws2 @ cl' @ post) (\<lambda>p'. m X2 True p' [] K) = Some res"
    proof (rule star_g_max)
      show "list_all (cls_mem True space_cls) ws1" using ws1 by (simp only: cls_mem_space)
    next
      have "\<not> is_space (hd (g @ ws2 @ cl' @ post))"
      proof (cases "g = []")
        case True
        with g_empty hd_cl show ?thesis by simp
      next
        case False
        with g_ends show ?thesis by simp
      qed
      then show "g @ ws2 @ cl' @ post = [] \<or> \<not> cls_mem True space_cls (hd (g @ ws2 @ cl' @ post))"
        by (simp only: cls_mem_space) simp
    next
      show "m X2 True (prev_after q ws1, g @ ws2 @ cl' @ post) [] K = Some res" by (rule mX2)
    qed
    then show ?thesis by (simp add: X1_def inner)
  qed
  have "m (tag_re opn cls) True (prev, o' @ inner @ cl' @ post) [] K = Some res"
    unfolding tag_re_def X3_def [symmetric] X2_def [symmetric] X1_def [symmetric]
    by (simp only: m_Seq_Lit_occ [OF o'] mX1)
  then show ?thesis
    using match_at_from_m [of "tag_re opn cls" True prev "o' @ inner @ cl'" post "Some (last cl')"
        "[(1, g)]"]
    by (simp add: K_def res_def g_def)
qed

lemma tag_re_start: "match_at (tag_re opn cls) ic prev z = None" if "\<not> lit_at ic opn z"
  using that unfolding tag_re_def by (rule match_at_Lit_start)

lemma tag_str_match_Some:
  assumes cls: "cls = c0 # cs" "caseless c0" "\<not> is_space c0"
    and inner: "inner_content opn cls raw = Some inner"
  shows "\<exists>i mt. str_match raw (tag_re opn cls) True =
           Some \<lparr>index = i, matched = mt, groups = [(1, trim inner)]\<rparr>"
proof -
  from inner obtain i j where i: "find_lit True opn raw = Some i"
    and j: "find_lit True cls (drop (i + length opn) raw) = Some j"
    and inner_def: "inner = take j (drop (i + length opn) raw)"
    by (auto simp: inner_content_def Let_def split: option.splits)
  define after where "after = drop (i + length opn) raw"
  from find_lit_Some [OF i] have i_le: "i \<le> length raw" and i_lit: "lit_at True opn (drop i raw)"
    and i_first: "\<And>k. k < i \<Longrightarrow> \<not> lit_at True opn (drop k raw)" by auto
  from lit_at_split [OF i_lit] obtain o' zs where
    oz: "drop i raw = o' @ zs" "length o' = length opn" "list_all2 (ceq True) opn o'" by blast
  have "after = drop (length opn) (drop i raw)" by (simp add: after_def add.commute)
  with oz have zs: "zs = after" by simp
  from find_lit_Some [OF j] have j_le: "j \<le> length after" and j_lit: "lit_at True cls (drop j after)"
    and j_first: "\<And>k. k < j \<Longrightarrow> \<not> lit_at True cls (drop k after)"
    by (auto simp: after_def)
  from lit_at_split [OF j_lit] obtain cl' post where
    cp: "drop j after = cl' @ post" "list_all2 (ceq True) cls cl'" by blast
  have after: "after = inner @ cl' @ post"
    using cp(1) append_take_drop_id [of j after] by (simp add: inner_def after_def)
  have len_inner: "length inner = j" using j_le by (simp add: inner_def after_def)
  have first: "\<not> lit_at True cls (drop k inner @ cl' @ post)" if "k < length inner" for k
  proof -
    from that have "drop k after = drop k inner @ cl' @ post" by (simp add: after)
    with j_first [of k] that len_inner show ?thesis by simp
  qed
  define pre where "pre = take i raw"
  have raw: "raw = pre @ o' @ inner @ cl' @ post"
    using append_take_drop_id [of i raw] oz(1) zs after by (simp add: pre_def)
  have len_pre: "length pre = i" using i_le by (simp add: pre_def)
  have "exec_from (tag_re opn cls) True 0 None (pre @ o' @ inner @ cl' @ post) =
      Some \<lparr>index = 0 + length pre, matched = o' @ inner @ cl', groups = [(1, trim inner)]\<rparr>"
  proof (rule exec_from_at)
    fix k prev'
    assume k: "k < length pre"
    then have "drop k pre @ o' @ inner @ cl' @ post = drop k raw" by (simp add: raw)
    moreover from k len_pre have "\<not> lit_at True opn (drop k raw)" by (simp add: i_first)
    ultimately show "match_at (tag_re opn cls) True prev' (drop k pre @ o' @ inner @ cl' @ post) = None"
      by (simp add: tag_re_start)
  next
    fix prev'
    show "match_at (tag_re opn cls) True prev' (o' @ inner @ cl' @ post) =
        Some (o' @ inner @ cl', (Some (last cl'), post), [(1, trim inner)])"
      by (rule tag_match_at [OF cls oz(3) cp(2) first])
  qed
  then show ?thesis by (auto simp: str_match_def raw)
qed

lemma tag_match_sound:
  assumes "match_at (tag_re opn cls) True prev z = Some res"
  shows "lit_at True opn z \<and> (\<exists>z'. suffix z' (drop (length opn) z) \<and> lit_at True cls z')"
proof -
  define K :: "pos \<Rightarrow> caps \<Rightarrow> mstate option" where "K = (\<lambda>p c. Some (p, c))"
  from assms obtain q where "m (tag_re opn cls) True (prev, z) [] K = Some q"
    by (auto simp: match_at_def K_def split: option.splits)
  then have "m (Seq (Lit opn) (Seq (Star space_cls) (Seq (Grp 1 (LazyStar any_cls))
       (Seq (Star space_cls) (Lit cls))))) True (prev, z) [] K = Some q"
    by (simp only: tag_re_def)
  from m_Seq_Lit_Some [OF this] have lit: "lit_at True opn z"
    and 1: "m (Seq (Star space_cls) (Seq (Grp 1 (LazyStar any_cls)) (Seq (Star space_cls) (Lit cls))))
        True (advance (prev, z) (length opn)) [] K = Some q"
    by simp_all
  from m_Seq_suffix [OF 1] obtain p1 c1 where
    2: "m (Seq (Grp 1 (LazyStar any_cls)) (Seq (Star space_cls) (Lit cls))) True p1 c1 K = Some q"
    and s1: "suffix (snd p1) (drop (length opn) z)"
    by (auto simp: advance_snd)
  from m_Seq_suffix [OF 2] obtain p2 c2 where
    3: "m (Seq (Star space_cls) (Lit cls)) True p2 c2 K = Some q"
    and s2: "suffix (snd p2) (snd p1)" by blast
  from m_Seq_suffix [OF 3] obtain p3 c3 where
    4: "m (Lit cls) True p3 c3 K = Some q"
    and s3: "suffix (snd p3) (snd p2)" by blast
  from 4 have "lit_at True cls (snd p3)" by (simp split: if_splits)
  moreover from s1 s2 s3 have "suffix (snd p3) (drop (length opn) z)"
    using suffix_order.trans by blast
  ultimately show ?thesis using lit by blast
qed

lemma tag_str_match_None:
  assumes "inner_content opn cls raw = None"
  shows "str_match raw (tag_re opn cls) True = None"
  unfolding str_match_def
proof (rule exec_from_None)
  fix z prev'
  assume z: "suffix z raw"
  show "match_at (tag_re opn cls) True prev' z = None"
  proof (rule ccontr)
    assume "match_at (tag_re opn cls) True prev' z \<noteq> None"
    then obtain res where "match_at (tag_re opn cls) True prev' z = Some res" by auto
    from tag_match_sound [OF this] obtain z' where lit: "lit_at True opn z"
      and z': "suffix z' (drop (length opn) z)" "lit_at True cls z'" by blast
    from find_lit_occurs [OF lit z] obtain i where
      i: "find_lit True opn raw = Some i" "i + length z \<le> length raw" by blast
    define k where "k = length raw - length z"
    from z have zk: "z = drop k raw" unfolding k_def
      by (metis append_eq_conv_conj length_append add_diff_cancel_right' suffix_def)
    from i(2) have ik: "i \<le> k" by (simp add: k_def)
    have e: "drop (length opn) z = drop (k - i) (drop (i + length opn) raw)"
      using ik by (simp add: zk add.commute)
    have "suffix (drop (k - i) (drop (i + length opn) raw)) (drop (i + length opn) raw)"
      by (rule suffix_drop)
    then have "suffix (drop (length opn) z) (drop (i + length opn) raw)"
      by (simp only: e)
    with z'(1) have "suffix z' (drop (i + length opn) raw)" using suffix_order.trans by blast
    from find_lit_occurs [OF z'(2) this] obtain j where
      "find_lit True cls (drop (i + length opn) raw) = Some j" by blast
    with i(1) assms show False by (simp add: inner_content_def Let_def)
  qed
qed

lemma refined_re_tag: "refined_re = tag_re (js ''[REFINED]'') (0x5B # js ''/REFINED]'')"
  by (simp add: refined_re_def tag_re_def js_def)

lemma changelog_re_tag: "changelog_re = tag_re (js ''[CHANGELOG]'') (0x5B # js ''/CHANGELOG]'')"
  by (simp add: changelog_re_def tag_re_def js_def)

lemma closing_tags: "js ''[/REFINED]'' = 0x5B # js ''/REFINED]''" "js ''[/CHANGELOG]'' = 0x5B # js ''/CHANGELOG]''"
  by (simp_all add: js_def)

lemma refined_match_Some:
  assumes "inner_content (js ''[REFINED]'') (js ''[/REFINED]'') raw = Some inner"
  shows "\<exists>rm. str_match raw refined_re True = Some rm \<and> group rm 1 = trim inner"
proof -
  from tag_str_match_Some [OF refl caseless_lbracket not_space_lbracket assms [unfolded closing_tags]]
  obtain i mt where "str_match raw refined_re True =
      Some \<lparr>index = i, matched = mt, groups = [(1, trim inner)]\<rparr>"
    unfolding refined_re_tag by blast
  then show ?thesis by (simp add: group_def capture_def)
qed

lemma changelog_match:
  "(case str_match raw changelog_re True of
      Some changelogMatch \<Rightarrow> Some (trim (group changelogMatch 1))
    | None \<Rightarrow> None) =
   map_option trim (inner_content (js ''[CHANGELOG]'') (js ''[/CHANGELOG]'') raw)"
proof (cases "inner_content (js ''[CHANGELOG]'') (js ''[/CHANGELOG]'') raw")
  case None
  from tag_str_match_None [OF None [unfolded closing_tags]] None show ?thesis
    by (simp add: changelog_re_tag)
next
  case (Some inner)
  from tag_str_match_Some [OF refl caseless_lbracket not_space_lbracket Some [unfolded closing_tags]]
  obtain i mt where "str_match raw changelog_re True =
      Some \<lparr>index = i, matched = mt, groups = [(1, trim inner)]\<rparr>"
    unfolding changelog_re_tag by blast
  with Some show ?thesis by (simp add: group_def capture_def trim_idem)
qed

lemma strip_markers_plain:
  assumes "0x5B \<notin> set s"
  shows "strip_markers s = s"
proof -
  have "\<exists>r. marker_re = Seq (Lit (0x5B # [])) r" by (simp add: marker_re_def js_def)
  then obtain r where r: "marker_re = Seq (Lit (0x5B # [])) r" by blast
  show ?thesis
    unfolding strip_markers_def r
    by (simp add: replace_g_skip_all [OF caseless_lbracket assms])
qed

text \<open>
  Claim C6, amended. For every raw reply that holds a closed \<^verbatim>\<open>[REFINED]...[/REFINED]\<close> pair,
  tags compared without regard to case, whose inner content is not blank, \<open>parseChangelog\<close>
  sets \<open>refined\<close> to that inner content trimmed, with the reserved tag markers left in it removed
  and the result trimmed again, and sets \<open>changelog\<close> to the trimmed inner content of the first
  closed \<^verbatim>\<open>[CHANGELOG]...[/CHANGELOG]\<close> pair of the reply, or to \<^verbatim>\<open>null\<close> when there is none.
  The witness is the example of the specification.
\<close>

theorem parse_refined_pair:
  assumes "inner_content (js ''[REFINED]'') (js ''[/REFINED]'') raw = Some inner"
    and "trim inner \<noteq> []"
  shows "parseChangelog raw =
           \<lparr>changelog = map_option trim (inner_content (js ''[CHANGELOG]'') (js ''[/CHANGELOG]'') raw),
            refined = trim (strip_markers (trim inner))\<rparr>"
proof -
  from refined_match_Some [OF assms(1)] obtain rm where
    rm: "str_match raw refined_re True = Some rm" "group rm 1 = trim inner" by blast
  have "extract_tags raw =
      (map_option trim (inner_content (js ''[CHANGELOG]'') (js ''[/CHANGELOG]'') raw),
       Some (trim inner))"
    unfolding extract_tags_def rm(1) option.case changelog_match rm(2) trim_idem ..
  with assms(2) show ?thesis by (simp add: parseChangelog_def)
qed

theorem parse_refined_pair_witness:
  "parseChangelog (js ''blah blah [CHANGELOG]'' @ [0x0A] @ js ''- x'' @ [0x0A] @
       js ''[/CHANGELOG][REFINED]Hello world.[/REFINED]'') =
     \<lparr>changelog = Some (js ''- x''), refined = js ''Hello world.''\<rparr>"
proof -
  define raw where "raw = js ''blah blah [CHANGELOG]'' @ [0x0A] @ js ''- x'' @ [0x0A] @
       js ''[/CHANGELOG][REFINED]Hello world.[/REFINED]''"
  have 1: "inner_content (js ''[REFINED]'') (js ''[/REFINED]'') raw = Some (js ''Hello world.'')"
    unfolding raw_def by code_simp
  have 2: "trim (js ''Hello world.'') \<noteq> []" by code_simp
  have 3: "map_option trim (inner_content (js ''[CHANGELOG]'') (js ''[/CHANGELOG]'') raw) =
      Some (js ''- x'')"
    unfolding raw_def by code_simp
  have 4: "trim (strip_markers (trim (js ''Hello world.''))) = js ''Hello world.''" by code_simp
  from parse_refined_pair [OF 1 2] have
    "parseChangelog raw = \<lparr>changelog = Some (js ''- x''), refined = js ''Hello world.''\<rparr>"
    by (simp only: 3 4)
  then show ?thesis by (simp only: raw_def)
qed

text \<open>
  Claim C6 as stated fails in two ways: an empty pair sends the parser to its fallback, which
  keeps the surrounding text, and a marker inside the pair is removed from \<open>refined\<close>.
\<close>

theorem parse_refined_pair_counterexample:
  "inner_content (js ''[REFINED]'') (js ''[/REFINED]'') (js ''x[REFINED][/REFINED]'') = Some [] \<and>
   refined (parseChangelog (js ''x[REFINED][/REFINED]'')) = js ''x'' \<and>
   inner_content (js ''[REFINED]'') (js ''[/REFINED]'') (js ''[REFINED]a[CHANGELOG]b[/REFINED]'') =
     Some (js ''a[CHANGELOG]b'') \<and>
   refined (parseChangelog (js ''[REFINED]a[CHANGELOG]b[/REFINED]'')) = js ''ab''"
  by code_simp

text \<open>
  Claim C5, amended. For every raw reply from which no structured content can be recovered,
  having no closed \<^verbatim>\<open>[REFINED]\<close> pair and no opening \<^verbatim>\<open>[CHANGELOG]\<close> tag, \<open>parseChangelog\<close>
  returns \<open>changelog = null\<close> and \<open>refined\<close> equal to the raw reply trimmed, with the reserved tag
  markers left in it removed and the result trimmed again. For a reply without any left
  bracket that is the raw reply trimmed, and it is empty exactly when the reply is blank.
\<close>

theorem parse_fallback:
  "(inner_content (js ''[REFINED]'') (js ''[/REFINED]'') raw = None \<and>
    find_lit True (js ''[CHANGELOG]'') raw = None \<longrightarrow>
      parseChangelog raw = \<lparr>changelog = None, refined = trim (strip_markers (trim raw))\<rparr>) \<and>
   (0x5B \<notin> set raw \<longrightarrow>
      parseChangelog raw = \<lparr>changelog = None, refined = trim raw\<rparr> \<and>
      (refined (parseChangelog raw) = [] \<longleftrightarrow> list_all is_space raw))"
proof -
  have A: "parseChangelog raw = \<lparr>changelog = None, refined = trim (strip_markers (trim raw))\<rparr>"
    if r: "inner_content (js ''[REFINED]'') (js ''[/REFINED]'') raw = None"
      and c: "find_lit True (js ''[CHANGELOG]'') raw = None"
  proof -
    have 1: "str_match raw refined_re True = None"
      unfolding refined_re_tag by (rule tag_str_match_None [OF r [unfolded closing_tags]])
    have 2: "str_match raw changelog_re True = None"
      unfolding changelog_re_def seqs.simps by (rule str_match_no_opening [OF c])
    have 3: "str_match raw unclosed_re True = None"
      unfolding unclosed_re_def seqs.simps by (rule str_match_no_opening [OF c])
    show ?thesis by (simp add: parseChangelog_def extract_tags_def 1 2 3)
  qed
  have B: "parseChangelog raw = \<lparr>changelog = None, refined = trim raw\<rparr> \<and>
      (refined (parseChangelog raw) = [] \<longleftrightarrow> list_all is_space raw)" if n: "0x5B \<notin> set raw"
  proof -
    have o: "js ''[REFINED]'' = 0x5B # js ''REFINED]''" "js ''[CHANGELOG]'' = 0x5B # js ''CHANGELOG]''"
      by (simp_all add: js_def)
    have r: "inner_content (js ''[REFINED]'') (js ''[/REFINED]'') raw = None"
      by (simp add: inner_content_def o(1) find_lit_absent [OF caseless_lbracket n])
    have c: "find_lit True (js ''[CHANGELOG]'') raw = None"
      unfolding o(2) by (rule find_lit_absent [OF caseless_lbracket n])
    from n set_trim [of raw] have "0x5B \<notin> set (trim raw)" by auto
    then have "strip_markers (trim raw) = trim raw" by (rule strip_markers_plain)
    with A [OF r c] show ?thesis by (simp add: trim_idem trim_empty_iff)
  qed
  from A B show ?thesis by blast
qed

theorem parse_fallback_witness:
  "parseChangelog (js '' [REFINED] Hello.'') = \<lparr>changelog = None, refined = js ''Hello.''\<rparr> \<and>
   parseChangelog (js '' Hello. '') = \<lparr>changelog = None, refined = js ''Hello.''\<rparr>"
proof -
  have 1: "inner_content (js ''[REFINED]'') (js ''[/REFINED]'') (js '' [REFINED] Hello.'') = None"
    by code_simp
  have 2: "find_lit True (js ''[CHANGELOG]'') (js '' [REFINED] Hello.'') = None" by code_simp
  have 3: "trim (strip_markers (trim (js '' [REFINED] Hello.''))) = js ''Hello.''" by code_simp
  have 4: "0x5B \<notin> set (js '' Hello. '')" by (simp add: js_def)
  have 5: "trim (js '' Hello. '') = js ''Hello.''" by code_simp
  show ?thesis
    using parse_fallback [of "js '' [REFINED] Hello.''"] parse_fallback [of "js '' Hello. ''"]
      1 2 4
    by (simp add: 3 5)
qed

text \<open>
  Claim C5 as stated fails: \<open>refined\<close> is empty for the reply \<^verbatim>\<open>[REFINED][/REFINED]\<close>, and for
  \<^verbatim>\<open>[REFINED] hi\<close>, where nothing structured is recovered, it is not the trimmed reply.
\<close>

theorem parse_refined_may_be_empty_counterexample:
  "refined (parseChangelog (js ''[REFINED][/REFINED]'')) = [] \<and>
   refined (parseChangelog (js ''[REFINED] hi'')) = js ''hi'' \<and>
   trim (js ''[REFINED] hi'') = js ''[REFINED] hi''"
  by code_simp

section \<open>Properties of the point of view detector\<close>

lemma bitlen_le: "n < 2 ^ k \<Longrightarrow> bitlen n \<le> k"
proof (induction k arbitrary: n)
  case 0
  then show ?case by (simp add: bitlen.simps)
next
  case (Suc k)
  then have "n div 2 < 2 ^ k" by simp
  from Suc.IH [OF this] show ?case by (subst bitlen.simps) simp
qed

lemma round53_cases:
  assumes "bitlen p - 53 = Suc s"
  shows "round53 p = (p div 2 ^ Suc s) * 2 ^ Suc s \<or>
         (round53 p = (p div 2 ^ Suc s + 1) * 2 ^ Suc s \<and> 2 ^ s \<le> p mod 2 ^ Suc s)"
  unfolding round53_def Let_def assms by (auto simp del: power_Suc)

lemma round53_upper:
  assumes "bitlen p - 53 = Suc s"
  shows "round53 p \<le> p + 2 ^ s"
proof -
  define P :: nat where "P = 2 ^ Suc s"
  define H :: nat where "H = 2 ^ s"
  have PH: "P = H + H" by (simp add: P_def H_def)
  have p: "(p div P) * P + p mod P = p" by (rule div_mult_mod_eq)
  from round53_cases [OF assms] have
    "round53 p = (p div P) * P \<or> (round53 p = (p div P + 1) * P \<and> H \<le> p mod P)"
    by (simp only: P_def H_def)
  then show ?thesis
  proof
    assume "round53 p = (p div P) * P"
    with p show ?thesis by linarith
  next
    assume a: "round53 p = (p div P + 1) * P \<and> H \<le> p mod P"
    have "(p div P + 1) * P = (p div P) * P + P" by (simp add: algebra_simps)
    with a PH p have "round53 p \<le> p + H" by linarith
    then show ?thesis by (simp only: H_def)
  qed
qed

lemma round53_lower:
  assumes "bitlen p - 53 = Suc s" and "a * 2 ^ Suc s \<le> p"
  shows "a * 2 ^ Suc s \<le> round53 p"
proof -
  define P :: nat where "P = 2 ^ Suc s"
  have Ppos: "0 < P" by (simp add: P_def)
  from assms(2) have "a * P \<le> p" by (simp only: P_def)
  then have "a * P div P \<le> p div P" by (rule div_le_mono)
  with Ppos have "a \<le> p div P" by simp
  then have 1: "a * P \<le> (p div P) * P" by (rule mult_le_mono1)
  have 2: "(p div P) * P \<le> (p div P + 1) * P" by simp
  from round53_cases [OF assms(1)] have
    "round53 p = (p div P) * P \<or> round53 p = (p div P + 1) * P"
    by (auto simp only: P_def)
  with 1 2 have "a * P \<le> round53 p" by linarith
  then show ?thesis by (simp only: P_def)
qed

lemma exceeds_times_0_2:
  assumes "tot < 2 ^ 52"
  shows "exceeds n (times_0_2 tot) \<longleftrightarrow> 5 * n > tot"
proof -
  define M :: nat where "M = 7205759403792794"
  define B :: nat where "B = 2 ^ 55"
  define p where "p = tot * M"
  have M5: "5 * M = B + 2" by (simp add: M_def B_def)
  have p5: "5 * p = tot * B + 2 * tot"
  proof -
    have "5 * p = tot * (5 * M)" by (simp add: p_def)
    also have "\<dots> = tot * (B + 2)" by (simp only: M5)
    finally show ?thesis by (simp add: algebra_simps)
  qed
  have tB: "2 * tot + 5 * 2 ^ 51 < B" using assms by (simp add: B_def)
  have "M < 2 ^ 53" by (simp add: M_def)
  with assms have "tot * M < 2 ^ 52 * 2 ^ 53"
    by (intro mult_strict_mono) simp_all
  then have "p < 2 ^ 105" by (simp add: p_def)
  then have bl: "bitlen p \<le> 105" by (rule bitlen_le)
  have ex: "exceeds n (times_0_2 tot) \<longleftrightarrow> n * B > round53 p"
    by (simp add: exceeds_def times_0_2_def B_def p_def M_def)
  show ?thesis
  proof (cases "bitlen p - 53")
    case 0
    then have r: "round53 p = p" by (simp add: round53_def)
    show ?thesis
    proof
      assume "exceeds n (times_0_2 tot)"
      with ex r have "n * B > p" by simp
      then have "5 * (n * B) > 5 * p" by simp
      with p5 have "5 * (n * B) > tot * B" by linarith
      then have "(5 * n) * B > tot * B" by (simp only: mult.assoc)
      then show "5 * n > tot" by (simp only: mult_less_cancel2)
    next
      assume "5 * n > tot"
      then have "tot + 1 \<le> 5 * n" by simp
      then have "(tot + 1) * B \<le> (5 * n) * B" by (rule mult_le_mono1)
      then have "tot * B + B \<le> 5 * (n * B)" by (simp add: algebra_simps)
      with p5 tB have "5 * p < 5 * (n * B)" by linarith
      then have "p < n * B" by simp
      with ex r show "exceeds n (times_0_2 tot)" by simp
    qed
  next
    case (Suc s)
    with bl have s: "s \<le> 51" by simp
    then have pw: "(2::nat) ^ s \<le> 2 ^ 51" by (intro power_increasing) simp_all
    show ?thesis
    proof
      assume "exceeds n (times_0_2 tot)"
      with ex have gt: "n * B > round53 p" by simp
      show "5 * n > tot"
      proof (rule ccontr)
        assume "\<not> 5 * n > tot"
        then have "5 * n \<le> tot" by simp
        then have "(5 * n) * B \<le> tot * B" by (rule mult_le_mono1)
        then have "5 * (n * B) \<le> tot * B" by (simp only: mult.assoc)
        with p5 have "5 * (n * B) \<le> 5 * p" by linarith
        then have le: "n * B \<le> p" by simp
        have "54 - s + Suc s = 55" using s by simp
        then have "B = 2 ^ (54 - s) * 2 ^ Suc s"
          unfolding B_def by (metis power_add)
        then have nB: "n * B = (n * 2 ^ (54 - s)) * 2 ^ Suc s" by (simp only: mult.assoc)
        from le have "(n * 2 ^ (54 - s)) * 2 ^ Suc s \<le> p" by (simp only: nB)
        then have "(n * 2 ^ (54 - s)) * 2 ^ Suc s \<le> round53 p" by (rule round53_lower [OF Suc])
        then have "n * B \<le> round53 p" by (simp only: nB)
        with gt show False by simp
      qed
    next
      assume "5 * n > tot"
      then have "tot + 1 \<le> 5 * n" by simp
      then have "(tot + 1) * B \<le> (5 * n) * B" by (rule mult_le_mono1)
      then have 1: "tot * B + B \<le> 5 * (n * B)" by (simp add: algebra_simps)
      have "round53 p \<le> p + 2 ^ s" by (rule round53_upper [OF Suc])
      with pw have "round53 p \<le> p + 2 ^ 51" by linarith
      then have "5 * round53 p \<le> 5 * p + 5 * 2 ^ 51" by simp
      with p5 tB 1 have "5 * round53 p < 5 * (n * B)" by linarith
      then have "n * B > round53 p" by simp
      with ex show "exceeds n (times_0_2 tot)" by simp
    qed
  qed
qed

text \<open>
  Claim C8. When the combined pronoun count is at least 3 and the first-person and the
  second-person count each strictly exceed 20% of it, \<open>detectPov\<close> returns \<^verbatim>\<open>'1.5'\<close>,
  whichever class holds a plurality; when the combined count is below 3 it returns
  \<^verbatim>\<open>null\<close>. The counts are lengths of arrays, each below \<open>2\<^sup>3\<^sup>2\<close>; for a combined count
  below \<open>2\<^sup>5\<^sup>2\<close> the comparison with the rounded product of doubles decides the exact one.
\<close>

theorem detectPov_mixed_person:
  assumes "first (count_pronouns lc t) + second (count_pronouns lc t) + third (count_pronouns lc t) < 2 ^ 52"
  shows "(3 \<le> first (count_pronouns lc t) + second (count_pronouns lc t) + third (count_pronouns lc t) \<and>
    real (first (count_pronouns lc t)) >
      (20 / 100) * real (first (count_pronouns lc t) + second (count_pronouns lc t) + third (count_pronouns lc t)) \<and>
    real (second (count_pronouns lc t)) >
      (20 / 100) * real (first (count_pronouns lc t) + second (count_pronouns lc t) + third (count_pronouns lc t))
    \<longrightarrow> detectPov lc t = Some Pov_1_5) \<and>
   (first (count_pronouns lc t) + second (count_pronouns lc t) + third (count_pronouns lc t) < 3
    \<longrightarrow> detectPov lc t = None)"
proof -
  define n where "n = count_pronouns lc t"
  define tot where "tot = first n + second n + third n"
  have fifth: "real k > (20 / 100) * real tot \<longleftrightarrow> 5 * k > tot" for k
  proof -
    have "real k > (20 / 100) * real tot \<longleftrightarrow> real (5 * k) > real tot"
      by (simp add: mult.commute)
    also have "\<dots> \<longleftrightarrow> 5 * k > tot" by (simp only: of_nat_less_iff)
    finally show ?thesis .
  qed
  from assms have "tot < 2 ^ 52" by (simp add: tot_def n_def)
  then have "exceeds k (times_0_2 tot) \<longleftrightarrow> real k > (20 / 100) * real tot" for k
    by (simp only: exceeds_times_0_2 fifth)
  then show ?thesis
    unfolding detectPov_def classify_def Let_def n_def [symmetric] tot_def [symmetric]
    by auto
qed

theorem detectPov_mixed_person_witness:
  "detectPov (map lower_ascii) (js ''I saw you, myself'') = Some Pov_1_5 \<and>
   first (count_pronouns (map lower_ascii) (js ''I saw you, myself'')) >
     second (count_pronouns (map lower_ascii) (js ''I saw you, myself'')) \<and>
   first (count_pronouns (map lower_ascii) (js ''I saw you, myself'')) >
     third (count_pronouns (map lower_ascii) (js ''I saw you, myself'')) \<and>
   detectPov (map lower_ascii) (js ''The cat sat.'') = None"
proof -
  have c: "count_pronouns (map lower_ascii) (js ''I saw you, myself'') =
      \<lparr>first = 2, second = 1, third = 0\<rparr>"
    by code_simp
  have d: "count_pronouns (map lower_ascii) (js ''The cat sat.'') =
      \<lparr>first = 0, second = 0, third = 0\<rparr>"
    by code_simp
  show ?thesis
    using detectPov_mixed_person [of "map lower_ascii" "js ''I saw you, myself''"]
      detectPov_mixed_person [of "map lower_ascii" "js ''The cat sat.''"]
    by (simp add: c d)
qed

end
